theory Spec2Isabelle
  imports Main "HOL-Library.Signed_Division"
begin

section \<open>Board: the state-space model (Board.hpp)\<close>

text \<open>
  A \<^verbatim>\<open>std::vector<int>\<close> is an \<open>int list\<close>; it is read and written at indices
  \<open>nat i\<close>, which is what the source does whenever \<open>0 \<le> i < size\<close> (outside
  that range the C++ behaviour is undefined, and every theorem below is stated for boards
  whose accesses are in range). The truncating operators \<^verbatim>\<open>/\<close> and \<^verbatim>\<open>%\<close> of
  C++ are \<open>sdiv\<close> and \<open>smod\<close>.

  A C++ \<^verbatim>\<open>int\<close> has 32 bits. The indices and coordinates of a board stay below
  \<open>N * M\<close>, and the costs \<open>g\<close> below the number of boards in the cost table; they
  are modelled as \<open>int\<close>, and so is the sum \<open>g + h\<close> of a state. The accumulator
  of \<^verbatim>\<open>get_manhattan_distance\<close> is different: on a board of a single row of 65537
  tiles, which fits in memory many times over, it leaves the range of an
  \<^verbatim>\<open>int\<close>. The addition to it is therefore modelled with the wrap-around of the
  32-bit two's complement representation, \<open>wrap_int\<close>, which is what the compiled
  code does where the C++ standard leaves the overflow undefined.
\<close>

definition wrap_int :: "int \<Rightarrow> int" where
  "wrap_int x = (x + 2 ^ 31) mod 2 ^ 32 - 2 ^ 31"

record Board =
  N :: int
  M :: int
  tiles :: "int list"
  empty_row :: int
  empty_col :: int

text \<open>
  The constructor \<^verbatim>\<open>Board(n, m, initial_tiles)\<close> looks for the first blank among
  the first \<open>n * m\<close> tiles. When there is none, \<^verbatim>\<open>empty_row\<close> and
  \<^verbatim>\<open>empty_col\<close> stay uninitialised: \<open>r0\<close> and \<open>c0\<close> stand for whatever they
  hold then.
\<close>

definition Board_ctor :: "int \<Rightarrow> int \<Rightarrow> int list \<Rightarrow> int \<Rightarrow> int \<Rightarrow> Board" where
  "Board_ctor n m initial_tiles r0 c0 =
     (case find (\<lambda>i. initial_tiles ! nat i = 0) [0 .. n * m - 1] of
        Some i \<Rightarrow> \<lparr>N = n, M = m, tiles = initial_tiles,
                   empty_row = i sdiv m, empty_col = i smod m\<rparr>
      | None \<Rightarrow> \<lparr>N = n, M = m, tiles = initial_tiles, empty_row = r0, empty_col = c0\<rparr>)"

text \<open>\<^verbatim>\<open>std::swap(v[i], v[j])\<close> on a vector.\<close>

definition swap_tiles :: "int list \<Rightarrow> int \<Rightarrow> int \<Rightarrow> int list" where
  "swap_tiles v i j = v[nat i := v ! nat j, nat j := v ! nat i]"

text \<open>\<^verbatim>\<open>Board::is_goal\<close>: the loop over \<open>i = 0 .. N*M-2\<close>, then the last cell.\<close>

definition is_goal :: "Board \<Rightarrow> bool" where
  "is_goal b =
     (if \<exists>i \<in> set [0 ..< nat (N b * M b - 1)]. tiles b ! i \<noteq> int i + 1 then False
      else tiles b ! nat (N b * M b - 1) = 0)"

text \<open>
  \<^verbatim>\<open>Board::get_manhattan_distance\<close>: one loop iteration adds the distance of the
  tile at index \<open>i\<close> to the accumulator \<open>h\<close>; the blank is skipped.
\<close>

definition manhattan_step :: "Board \<Rightarrow> int \<Rightarrow> int \<Rightarrow> int" where
  "manhattan_step b h i =
     (let val = tiles b ! nat i in
      if val = 0 then h
      else
        let current_row = i sdiv M b;
            current_col = i smod M b;
            target_idx = val - 1;
            target_row = target_idx sdiv M b;
            target_col = target_idx smod M b
        in wrap_int (h + (\<bar>current_row - target_row\<bar> + \<bar>current_col - target_col\<bar>)))"

definition get_manhattan_distance :: "Board \<Rightarrow> int" where
  "get_manhattan_distance b = foldl (manhattan_step b) 0 [0 .. N b * M b - 1]"

text \<open>
  The four directions of the arrays \<^verbatim>\<open>dr[] = {-1, 1, 0, 0}\<close> and
  \<^verbatim>\<open>dc[] = {0, 0, -1, 1}\<close>, in the order of the loop \<open>i = 0 .. 3\<close>.
\<close>

datatype direction = Up | Down | Left | Right

definition directions :: "direction list" where
  "directions = [Up, Down, Left, Right]"

fun dr :: "direction \<Rightarrow> int" where
  "dr Up = -1" | "dr Down = 1" | "dr Left = 0" | "dr Right = 0"

fun dc :: "direction \<Rightarrow> int" where
  "dc Up = 0" | "dc Down = 0" | "dc Left = -1" | "dc Right = 1"

definition in_bounds :: "Board \<Rightarrow> int \<Rightarrow> int \<Rightarrow> bool" where
  "in_bounds b r c \<longleftrightarrow> r \<ge> 0 \<and> r < N b \<and> c \<ge> 0 \<and> c < M b"

text \<open>\<^verbatim>\<open>Board::get_neighbors_adjacent_swap\<close>: the body of the loop over directions.\<close>

definition adjacent_swap_step :: "Board \<Rightarrow> Board list \<Rightarrow> direction \<Rightarrow> Board list" where
  "adjacent_swap_step b neighbors d =
     (let new_row = empty_row b + dr d;
          new_col = empty_col b + dc d
      in if in_bounds b new_row new_col then
           let new_empty_idx = new_row * M b + new_col;
               old_empty_idx = empty_row b * M b + empty_col b
           in neighbors @
                [b\<lparr>tiles := swap_tiles (tiles b) old_empty_idx new_empty_idx,
                   empty_row := new_row, empty_col := new_col\<rparr>]
         else neighbors)"

definition get_neighbors_adjacent_swap :: "Board \<Rightarrow> Board list" where
  "get_neighbors_adjacent_swap b = foldl (adjacent_swap_step b) [] directions"

text \<open>
  \<^verbatim>\<open>Board::get_neighbors_block_shift\<close>: the inner \<^verbatim>\<open>while\<close> loop. Its state is
  the board \<open>csb\<close> shifted so far (\<^verbatim>\<open>current_shifted_board\<close>), the cell
  \<open>(current_r, current_c)\<close> and the vector of neighbours. The loop ends because the
  cell moves one step towards an edge of the grid in every iteration.
\<close>

function block_shift_loop ::
  "Board \<Rightarrow> direction \<Rightarrow> Board \<Rightarrow> int \<Rightarrow> int \<Rightarrow> Board list \<Rightarrow> Board list" where
  "block_shift_loop b d csb current_r current_c neighbors =
     (if in_bounds b current_r current_c then
        let current_tile_idx = current_r * M b + current_c;
            prev_empty_idx = (current_r - dr d) * M b + (current_c - dc d);
            csb' = csb\<lparr>tiles := swap_tiles (tiles csb) current_tile_idx prev_empty_idx,
                       empty_row := current_r, empty_col := current_c\<rparr>
        in block_shift_loop b d csb' (current_r + dr d) (current_c + dc d) (neighbors @ [csb'])
      else neighbors)"
  by pat_completeness auto
termination
  by (relation "measure (\<lambda>(b, d, csb, r, c, nb).
        nat (case d of Up \<Rightarrow> r + 1 | Down \<Rightarrow> N b - r | Left \<Rightarrow> c + 1 | Right \<Rightarrow> M b - c))")
     (auto simp: in_bounds_def split: direction.splits)

declare block_shift_loop.simps [simp del]

definition block_shift_step :: "Board \<Rightarrow> Board list \<Rightarrow> direction \<Rightarrow> Board list" where
  "block_shift_step b neighbors d =
     block_shift_loop b d b (empty_row b + dr d) (empty_col b + dc d) neighbors"

definition get_neighbors_block_shift :: "Board \<Rightarrow> Board list" where
  "get_neighbors_block_shift b = foldl (block_shift_step b) [] directions"


text \<open>
  \<^verbatim>\<open>Board::operator==\<close> compares the tile vectors only, and \<^verbatim>\<open>std::hash<Board>\<close>
  hashes the tile vector only; so a table keyed by boards is keyed by \<open>tiles\<close>.
  \<^verbatim>\<open>std::lexicographical_compare\<close> is what \<^verbatim>\<open>operator<\<close> of two vectors runs.
\<close>

fun lexicographical_compare :: "('a \<Rightarrow> 'a \<Rightarrow> bool) \<Rightarrow> 'a list \<Rightarrow> 'a list \<Rightarrow> bool" where
  "lexicographical_compare lt [] [] = False"
| "lexicographical_compare lt [] (y # ys) = True"
| "lexicographical_compare lt (x # xs) [] = False"
| "lexicographical_compare lt (x # xs) (y # ys) =
     (if lt x y then True else if lt y x then False else lexicographical_compare lt xs ys)"

definition Board_less :: "Board \<Rightarrow> Board \<Rightarrow> bool" where
  "Board_less a b =
     (if N a \<noteq> N b \<or> M a \<noteq> M b then N a < N b \<or> (N a = N b \<and> M a < M b)
      else lexicographical_compare (<) (tiles a) (tiles b))"

section \<open>Search states and solutions (PuzzleSolver.hpp)\<close>

datatype SolveType = AdjacentSwap | BlockShift

record State =
  board :: Board
  g_cost :: int
  h_cost :: int
  f_cost :: int

definition State_ctor :: "Board \<Rightarrow> int \<Rightarrow> int \<Rightarrow> State" where
  "State_ctor b g h = \<lparr>board = b, g_cost = g, h_cost = h, f_cost = g + h\<rparr>"

definition CompareStateForTBB :: "State \<Rightarrow> State \<Rightarrow> bool" where
  "CompareStateForTBB a b =
     (if f_cost a \<noteq> f_cost b then f_cost a > f_cost b else g_cost a > g_cost b)"

record Solution =
  cost :: int
  path :: "Board list"

definition Solution_less :: "Solution \<Rightarrow> Solution \<Rightarrow> bool" where
  "Solution_less a b =
     (if cost a \<noteq> cost b then cost a < cost b
      else lexicographical_compare Board_less (path a) (path b))"

text \<open>
  \<^verbatim>\<open>std::set<Solution>\<close> is kept as the list of its elements in iteration order.
  \<^verbatim>\<open>insert\<close> puts the element at its place, unless an element equivalent to it
  (neither is less than the other) is already there.
\<close>

fun set_insert :: "Solution \<Rightarrow> Solution list \<Rightarrow> Solution list" where
  "set_insert x [] = [x]"
| "set_insert x (y # ys) =
     (if Solution_less x y then x # y # ys
      else if Solution_less y x then y # set_insert x ys
      else y # ys)"

section \<open>The solver (PuzzleSolver: solve, worker_thread_func, reconstruct_path)\<close>

text \<open>
  The members of \<^verbatim>\<open>PuzzleSolver\<close>. The priority queue is the list of the states it
  holds; the two hash maps are maps from tile vectors; the mutex is held or not.
\<close>

record PuzzleSolver =
  open_set :: "State list"
  g_costs :: "int list \<rightharpoonup> int"
  came_from :: "int list \<rightharpoonup> Board"
  found_solutions :: "Solution list"
  solutions_mutex :: bool
  terminate_search :: bool
  states_explored :: int

text \<open>
  \<^verbatim>\<open>tbb::concurrent_priority_queue<State, CompareStateForTBB>::try_pop\<close> is library
  code. Its contract is that of \<^verbatim>\<open>std::priority_queue\<close>: it removes an element
  of highest priority, that is an element that the comparator puts before no element
  of the queue.
\<close>

definition highest_priority :: "State list \<Rightarrow> State \<Rightarrow> bool" where
  "highest_priority q x \<longleftrightarrow> x \<in> set q \<and> (\<forall>y \<in> set q. \<not> CompareStateForTBB x y)"

text \<open>
  \<^verbatim>\<open>reconstruct_path\<close> on a parent map that does not change while it runs: the
  \<^verbatim>\<open>while\<close> loop may run forever (the value \<open>None\<close>). The flag returned with
  the path tells whether the error was logged.
\<close>

partial_function (option) reconstruct_loop ::
  "(int list \<rightharpoonup> Board) \<Rightarrow> Board \<Rightarrow> Board \<Rightarrow> Board list \<Rightarrow> (Board list \<times> bool) option" where
  "reconstruct_loop cf initial_board current pth =
     (if tiles current = tiles initial_board then Some (pth, False)
      else case cf (tiles current) of
             Some parent \<Rightarrow> reconstruct_loop cf initial_board parent (pth @ [current])
           | None \<Rightarrow> Some (pth @ [current], True))"

definition reconstruct_path ::
  "(int list \<rightharpoonup> Board) \<Rightarrow> Board \<Rightarrow> Board \<Rightarrow> (Board list \<times> bool) option" where
  "reconstruct_path cf goal_board initial_board =
     (case reconstruct_loop cf initial_board goal_board [] of
        None \<Rightarrow> None
      | Some (pth, logged) \<Rightarrow> Some (rev (pth @ [initial_board]), logged))"

text \<open>
  \<^verbatim>\<open>found_solutions.size() >= num_solutions_to_find\<close> compares a \<^verbatim>\<open>size_t\<close> with
  an \<^verbatim>\<open>int\<close>, which is converted to the unsigned 64-bit type first.
\<close>

definition enough_solutions :: "Solution list \<Rightarrow> int \<Rightarrow> bool" where
  "enough_solutions sols K \<longleftrightarrow> int (length sols) \<ge> K mod 2 ^ 64"

definition current_nth_best_cost :: "Solution list \<Rightarrow> int \<Rightarrow> int" where
  "current_nth_best_cost sols K =
     (if enough_solutions sols K then cost (sols ! nat (K - 1)) else -1)"

definition get_neighbors :: "SolveType \<Rightarrow> Board \<Rightarrow> Board list" where
  "get_neighbors type b =
     (if type = AdjacentSwap then get_neighbors_adjacent_swap b
      else get_neighbors_block_shift b)"

subsection \<open>One worker running alone\<close>

text \<open>
  One iteration of the \<^verbatim>\<open>while\<close> loop of \<^verbatim>\<open>worker_thread_func\<close>, after
  \<^verbatim>\<open>try_pop\<close> has delivered \<open>cur\<close>, up to the loop over the neighbours, as the
  worker runs it when no other worker touches the shared members meanwhile:
  \<open>Exit\<close> is \<^verbatim>\<open>break\<close>, \<open>Next\<close> is \<^verbatim>\<open>continue\<close>, and \<open>Expand\<close> carries
  the neighbours to relax. \<open>elapsed\<close> is the number of whole seconds between
  \<^verbatim>\<open>start_time\<close> and the clock reading \<^verbatim>\<open>now\<close> of this iteration.
  The periodic progress log only reads the shared members and is left out.
  \<open>None\<close>: the iteration does not return, because \<^verbatim>\<open>reconstruct_path\<close> does not.
  The mutex is taken and released again inside the iteration.
\<close>

datatype loop_result = Exit | Next | Expand "Board list"

definition loop_head ::
  "SolveType \<Rightarrow> int \<Rightarrow> Board \<Rightarrow> int \<Rightarrow> int \<Rightarrow> State \<Rightarrow> PuzzleSolver \<Rightarrow>
   (loop_result \<times> PuzzleSolver) option" where
  "loop_head type K initial_board time_limit elapsed cur s0 =
     (let s = s0\<lparr>states_explored := states_explored s0 + 1\<rparr> in
      if time_limit > 0 \<and> elapsed \<ge> time_limit then Some (Exit, s\<lparr>terminate_search := True\<rparr>)
      else
        let current_nth_best = current_nth_best_cost (found_solutions s) K in
        if current_nth_best \<noteq> -1 \<and> f_cost cur \<ge> current_nth_best then Some (Next, s)
        else if (case g_costs s (tiles (board cur)) of
                   Some g \<Rightarrow> g_cost cur > g | None \<Rightarrow> False) then Some (Next, s)
        else if is_goal (board cur) then
          (case reconstruct_path (came_from s) (board cur) initial_board of
             None \<Rightarrow> None
           | Some (pth, logged) \<Rightarrow>
               let s' = s\<lparr>found_solutions :=
                            set_insert \<lparr>cost = g_cost cur, path = pth\<rparr> (found_solutions s)\<rparr>
               in Some (Next, if enough_solutions (found_solutions s') K
                              then s'\<lparr>terminate_search := True\<rparr> else s'))
        else Some (Expand (get_neighbors type (board cur)), s))"

text \<open>
  The last statement of the body of the loop over the neighbours: the parent is
  recorded, by \<^verbatim>\<open>came_from.emplace\<close> after a first insertion (\<open>inserted\<close>; it keeps
  an entry that is there), by \<^verbatim>\<open>came_from[...] = ...\<close> after an update.
\<close>

definition relax_parent :: "State \<Rightarrow> Board \<Rightarrow> bool \<Rightarrow> PuzzleSolver \<Rightarrow> PuzzleSolver" where
  "relax_parent cur neighbor_board inserted s =
     (if inserted \<and> came_from s (tiles neighbor_board) \<noteq> None then s
      else s\<lparr>came_from := (came_from s)(tiles neighbor_board \<mapsto> board cur)\<rparr>)"

text \<open>The body of the loop over the neighbours, for one neighbour, run without interference.\<close>

definition relax :: "State \<Rightarrow> PuzzleSolver \<Rightarrow> Board \<Rightarrow> PuzzleSolver" where
  "relax cur s neighbor_board =
     (let new_g_cost = g_cost cur + 1;
          neighbor_h = get_manhattan_distance neighbor_board;
          pushed = s\<lparr>g_costs := (g_costs s)(tiles neighbor_board \<mapsto> new_g_cost),
                     open_set := open_set s @ [State_ctor neighbor_board new_g_cost neighbor_h]\<rparr>
      in case g_costs s (tiles neighbor_board) of
           None \<Rightarrow> relax_parent cur neighbor_board True pushed
         | Some g \<Rightarrow>
             if new_g_cost < g then relax_parent cur neighbor_board False pushed else s)"

text \<open>
  A whole iteration run by one worker without interference: the flag tells whether the
  loop goes on (\<open>True\<close>) or was left by \<^verbatim>\<open>break\<close>.
\<close>

definition worker_iteration ::
  "SolveType \<Rightarrow> int \<Rightarrow> Board \<Rightarrow> int \<Rightarrow> int \<Rightarrow> State \<Rightarrow> PuzzleSolver \<Rightarrow>
   (bool \<times> PuzzleSolver) option" where
  "worker_iteration type K initial_board time_limit elapsed cur s =
     (case loop_head type K initial_board time_limit elapsed cur s of
        None \<Rightarrow> None
      | Some (Exit, s') \<Rightarrow> Some (False, s')
      | Some (Next, s') \<Rightarrow> Some (True, s')
      | Some (Expand neighbors, s') \<Rightarrow> Some (True, foldl (relax cur) s' neighbors))"

subsection \<open>The workers running concurrently\<close>

text \<open>
  The workers run concurrently on the shared members, and their statements interleave.
  One step of a worker is one access to a shared member, together with the
  computation on its own variables that follows; the place of a worker in its code
  tells which access comes next:

  \<^item> \<open>AtLoopTest\<close>: \<^verbatim>\<open>terminate_search.load()\<close> of the loop test (line 77);
  \<^item> \<open>AtPop\<close>: \<^verbatim>\<open>open_set.try_pop\<close> of the loop test (line 77);
  \<^item> \<open>Counting\<close>: \<^verbatim>\<open>states_explored++\<close> (line 78), then the clock reading and the
    test of the time limit (lines 81 and 91);
  \<^item> \<open>Stopping\<close>: \<^verbatim>\<open>terminate_search.store(true)\<close> and \<^verbatim>\<open>break\<close> (lines 96-97);
  \<^item> \<open>Pruning\<close>: the block that reads \<^verbatim>\<open>found_solutions\<close> under the mutex (lines
    101-110), then the pruning test (lines 113-115);
  \<^item> \<open>StaleCheck\<close>: \<^verbatim>\<open>g_costs.find\<close> and the staleness test (lines 118-121), then
    \<^verbatim>\<open>is_goal\<close> and the computation of the neighbours (lines 124, 147-152);
  \<^item> \<open>Locking\<close>: the mutex is taken (line 125);
  \<^item> \<open>Reconstructing\<close>: one pass of the loop of \<^verbatim>\<open>reconstruct_path\<close>, with its
    \<^verbatim>\<open>came_from.find\<close> (lines 194-205), and after the last pass lines 206-208;
  \<^item> \<open>Inserting\<close>: \<^verbatim>\<open>found_solutions.insert\<close>, the test of the size, the store
    to the stop flag, and the release of the mutex at \<^verbatim>\<open>continue\<close> (lines 128-143);
    the set is only read or written under the mutex, so that no other worker can tell
    these apart;
  \<^item> \<open>Relaxing\<close>: \<^verbatim>\<open>g_costs.emplace\<close> for the next neighbour (line 163), or the end
    of the loop over the neighbours;
  \<^item> \<open>Comparing\<close>: the read of \<^verbatim>\<open>it_g->second\<close> in the comparison (line 172);
  \<^item> \<open>Writing\<close>: the assignment to \<^verbatim>\<open>it_g->second\<close> (line 174);
  \<^item> \<open>Pushing\<close>: \<^verbatim>\<open>open_set.push\<close> (line 168 or 176);
  \<^item> \<open>Linking\<close>: \<^verbatim>\<open>came_from.emplace\<close> (line 169) or the assignment to
    \<^verbatim>\<open>came_from[...]\<close> (line 180);
  \<^item> \<open>Finished\<close>: the worker has left its loop.

  The read or the assignment of one entry of a map (the \<^verbatim>\<open>int\<close> of
  \<^verbatim>\<open>g_costs\<close>, the \<^verbatim>\<open>Board\<close> of \<^verbatim>\<open>came_from\<close>) counts as one access.
  A step that needs the mutex cannot be taken while another worker holds it.
  \<open>pick\<close> is the position in the frontier of the element that \<^verbatim>\<open>try_pop\<close>
  delivers (one of highest priority), and \<open>elapsed\<close> the clock reading; both are
  chosen by the environment.
\<close>

datatype worker_pc =
  AtLoopTest
  | AtPop
  | Counting State
  | Stopping
  | Pruning State
  | StaleCheck State
  | Locking State
  | Reconstructing State Board "Board list"
  | Inserting State "Board list"
  | Relaxing State "Board list"
  | Comparing State Board "Board list"
  | Writing State Board "Board list"
  | Pushing State Board bool "Board list"
  | Linking State Board bool "Board list"
  | Finished

definition insert_solution :: "int \<Rightarrow> State \<Rightarrow> Board list \<Rightarrow> PuzzleSolver \<Rightarrow> PuzzleSolver" where
  "insert_solution K cur pth s =
     (let s' = s\<lparr>found_solutions :=
                  set_insert \<lparr>cost = g_cost cur, path = pth\<rparr> (found_solutions s)\<rparr>
      in if enough_solutions (found_solutions s') K
         then s'\<lparr>terminate_search := True\<rparr> else s')"

fun worker_thread_func ::
  "SolveType \<Rightarrow> int \<Rightarrow> Board \<Rightarrow> int \<Rightarrow> nat \<Rightarrow> int \<Rightarrow> PuzzleSolver \<Rightarrow> worker_pc \<Rightarrow>
   (PuzzleSolver \<times> worker_pc) option" where
  "worker_thread_func type K initial_board time_limit pick elapsed s AtLoopTest =
     Some (s, if terminate_search s then Finished else AtPop)"
| "worker_thread_func type K initial_board time_limit pick elapsed s AtPop =
     (if open_set s = [] then Some (s, Finished)
      else if pick < length (open_set s) \<and> highest_priority (open_set s) (open_set s ! pick)
      then Some (s\<lparr>open_set := remove1 (open_set s ! pick) (open_set s)\<rparr>,
                 Counting (open_set s ! pick))
      else None)"
| "worker_thread_func type K initial_board time_limit pick elapsed s (Counting cur) =
     Some (s\<lparr>states_explored := states_explored s + 1\<rparr>,
           if time_limit > 0 \<and> elapsed \<ge> time_limit then Stopping else Pruning cur)"
| "worker_thread_func type K initial_board time_limit pick elapsed s Stopping =
     Some (s\<lparr>terminate_search := True\<rparr>, Finished)"
| "worker_thread_func type K initial_board time_limit pick elapsed s (Pruning cur) =
     (if solutions_mutex s then None
      else
        let current_nth_best = current_nth_best_cost (found_solutions s) K in
        Some (s, if current_nth_best \<noteq> -1 \<and> f_cost cur \<ge> current_nth_best
                 then AtLoopTest else StaleCheck cur))"
| "worker_thread_func type K initial_board time_limit pick elapsed s (StaleCheck cur) =
     Some (s, if (case g_costs s (tiles (board cur)) of
                    Some g \<Rightarrow> g_cost cur > g | None \<Rightarrow> False) then AtLoopTest
              else if is_goal (board cur) then Locking cur
              else Relaxing cur (get_neighbors type (board cur)))"
| "worker_thread_func type K initial_board time_limit pick elapsed s (Locking cur) =
     (if solutions_mutex s then None
      else Some (s\<lparr>solutions_mutex := True\<rparr>, Reconstructing cur (board cur) []))"
| "worker_thread_func type K initial_board time_limit pick elapsed s
       (Reconstructing cur current pth) =
     Some (s, if tiles current = tiles initial_board
              then Inserting cur (rev (pth @ [initial_board]))
              else case came_from s (tiles current) of
                     Some parent \<Rightarrow> Reconstructing cur parent (pth @ [current])
                   | None \<Rightarrow> Inserting cur (rev ((pth @ [current]) @ [initial_board])))"
| "worker_thread_func type K initial_board time_limit pick elapsed s (Inserting cur pth) =
     Some ((insert_solution K cur pth s)\<lparr>solutions_mutex := False\<rparr>, AtLoopTest)"
| "worker_thread_func type K initial_board time_limit pick elapsed s (Relaxing cur []) =
     Some (s, AtLoopTest)"
| "worker_thread_func type K initial_board time_limit pick elapsed s
       (Relaxing cur (neighbor_board # rest)) =
     (case g_costs s (tiles neighbor_board) of
        None \<Rightarrow> Some (s\<lparr>g_costs := (g_costs s)(tiles neighbor_board \<mapsto> g_cost cur + 1)\<rparr>,
                      Pushing cur neighbor_board True rest)
      | Some g \<Rightarrow> Some (s, Comparing cur neighbor_board rest))"
| "worker_thread_func type K initial_board time_limit pick elapsed s
       (Comparing cur neighbor_board rest) =
     Some (s, if (case g_costs s (tiles neighbor_board) of
                    Some g \<Rightarrow> g_cost cur + 1 < g | None \<Rightarrow> False)
              then Writing cur neighbor_board rest else Relaxing cur rest)"
| "worker_thread_func type K initial_board time_limit pick elapsed s
       (Writing cur neighbor_board rest) =
     Some (s\<lparr>g_costs := (g_costs s)(tiles neighbor_board \<mapsto> g_cost cur + 1)\<rparr>,
           Pushing cur neighbor_board False rest)"
| "worker_thread_func type K initial_board time_limit pick elapsed s
       (Pushing cur neighbor_board inserted rest) =
     Some (s\<lparr>open_set := open_set s @
                [State_ctor neighbor_board (g_cost cur + 1)
                   (get_manhattan_distance neighbor_board)]\<rparr>,
           Linking cur neighbor_board inserted rest)"
| "worker_thread_func type K initial_board time_limit pick elapsed s
       (Linking cur neighbor_board inserted rest) =
     Some (relax_parent cur neighbor_board inserted s, Relaxing cur rest)"
| "worker_thread_func type K initial_board time_limit pick elapsed s Finished = None"

text \<open>One step of a worker, whatever the environment chooses.\<close>

definition worker_step ::
  "SolveType \<Rightarrow> int \<Rightarrow> Board \<Rightarrow> int \<Rightarrow>
   PuzzleSolver \<times> worker_pc \<Rightarrow> PuzzleSolver \<times> worker_pc \<Rightarrow> bool" where
  "worker_step type K initial_board time_limit c c' \<longleftrightarrow>
     (\<exists>pick elapsed.
        worker_thread_func type K initial_board time_limit pick elapsed (fst c) (snd c) = Some c')"

inductive solver_step ::
  "SolveType \<Rightarrow> int \<Rightarrow> Board \<Rightarrow> int \<Rightarrow>
   PuzzleSolver \<times> worker_pc list \<Rightarrow> PuzzleSolver \<times> worker_pc list \<Rightarrow> bool"
  for type K initial_board time_limit where
  "i < length pcs \<Longrightarrow>
   worker_step type K initial_board time_limit (s, pcs ! i) (s', pc') \<Longrightarrow>
   solver_step type K initial_board time_limit (s, pcs) (s', pcs[i := pc'])"

text \<open>
  \<^verbatim>\<open>PuzzleSolver::solve\<close>: the members are reset, the frontier and the cost table
  are seeded with the initial board, \<open>num_threads\<close> workers run until each has left
  its loop, and the first \<open>K\<close> solutions of the set are copied out.
\<close>

definition solve_init :: "Board \<Rightarrow> PuzzleSolver" where
  "solve_init initial_board =
     \<lparr>open_set = [State_ctor initial_board 0 (get_manhattan_distance initial_board)],
      g_costs = [tiles initial_board \<mapsto> 0],
      came_from = Map.empty,
      found_solutions = [],
      solutions_mutex = False,
      terminate_search = False,
      states_explored = 0\<rparr>"

fun extract_solutions :: "Solution list \<Rightarrow> int \<Rightarrow> int \<Rightarrow> Solution list \<Rightarrow> Solution list" where
  "extract_solutions [] K count result_solutions = result_solutions"
| "extract_solutions (sol # rest) K count result_solutions =
     (if count \<ge> K then result_solutions
      else extract_solutions rest K (count + 1) (result_solutions @ [sol]))"

inductive solve_returns ::
  "Board \<Rightarrow> SolveType \<Rightarrow> int \<Rightarrow> int \<Rightarrow> int \<Rightarrow> Solution list \<Rightarrow> bool" where
  "(solver_step type K initial_board time_limit)\<^sup>*\<^sup>*
     (solve_init initial_board, replicate (nat num_threads) AtLoopTest) (s, pcs) \<Longrightarrow>
   \<forall>pc \<in> set pcs. pc = Finished \<Longrightarrow>
   solve_returns initial_board type K num_threads time_limit
     (extract_solutions (found_solutions s) K 0 [])"

text \<open>
  A run under a given schedule: the list tells, step by step, which worker moves, and
  what the environment chooses for it (the position popped, the clock reading).
\<close>

fun run_schedule ::
  "SolveType \<Rightarrow> int \<Rightarrow> Board \<Rightarrow> int \<Rightarrow> (nat \<times> nat \<times> int) list \<Rightarrow>
   PuzzleSolver \<times> worker_pc list \<Rightarrow> (PuzzleSolver \<times> worker_pc list) option" where
  "run_schedule type K initial_board time_limit [] c = Some c"
| "run_schedule type K initial_board time_limit ((i, pick, elapsed) # sched) (s, pcs) =
     (if i < length pcs then
        case worker_thread_func type K initial_board time_limit pick elapsed s (pcs ! i) of
          None \<Rightarrow> None
        | Some (s', pc') \<Rightarrow> run_schedule type K initial_board time_limit sched (s', pcs[i := pc'])
      else None)"

section \<open>Notions used to state the properties\<close>

text \<open>
  A valid board (section 3 of the specification): positive dimensions, the tiles a
  permutation of \<open>0 .. N*M-1\<close>, and the cached coordinates those of the blank.
\<close>

definition valid_board :: "Board \<Rightarrow> bool" where
  "valid_board b \<longleftrightarrow>
     0 < N b \<and> 0 < M b \<and> sort (tiles b) = [0 .. N b * M b - 1] \<and>
     in_bounds b (empty_row b) (empty_col b) \<and>
     tiles b ! nat (empty_row b * M b + empty_col b) = 0"

text \<open>The number of cells between the blank and the edge of the grid in a direction.\<close>

definition cells_to_edge :: "Board \<Rightarrow> direction \<Rightarrow> int" where
  "cells_to_edge b d =
     (case d of Up \<Rightarrow> empty_row b | Down \<Rightarrow> N b - 1 - empty_row b
              | Left \<Rightarrow> empty_col b | Right \<Rightarrow> M b - 1 - empty_col b)"



definition steps_left :: "Board \<Rightarrow> direction \<Rightarrow> int \<Rightarrow> int \<Rightarrow> nat" where
  "steps_left b d r c =
     (if in_bounds b r c
      then nat (case d of Up \<Rightarrow> r + 1 | Down \<Rightarrow> N b - r | Left \<Rightarrow> c + 1 | Right \<Rightarrow> M b - c)
      else 0)"


text \<open>The popped state that a worker holds, if it holds one.\<close>

fun pc_state :: "worker_pc \<Rightarrow> State option" where
  "pc_state AtLoopTest = None"
| "pc_state AtPop = None"
| "pc_state (Counting cur) = Some cur"
| "pc_state Stopping = None"
| "pc_state (Pruning cur) = Some cur"
| "pc_state (StaleCheck cur) = Some cur"
| "pc_state (Locking cur) = Some cur"
| "pc_state (Reconstructing cur current pth) = Some cur"
| "pc_state (Inserting cur pth) = Some cur"
| "pc_state (Relaxing cur rest) = Some cur"
| "pc_state (Comparing cur nb rest) = Some cur"
| "pc_state (Writing cur nb rest) = Some cur"
| "pc_state (Pushing cur nb inserted rest) = Some cur"
| "pc_state (Linking cur nb inserted rest) = Some cur"
| "pc_state Finished = None"

text \<open>
  An invariant of the runs of \<open>solve\<close>: the costs held in the frontier, in the
  solution set and by the workers are not negative.
\<close>

definition pc_cost_ok :: "worker_pc \<Rightarrow> bool" where
  "pc_cost_ok pc \<longleftrightarrow> (case pc_state pc of None \<Rightarrow> True | Some cur \<Rightarrow> 0 \<le> g_cost cur)"

definition costs_nonneg :: "PuzzleSolver \<times> worker_pc list \<Rightarrow> bool" where
  "costs_nonneg c \<longleftrightarrow>
     (\<forall>st \<in> set (open_set (fst c)). 0 \<le> g_cost st) \<and>
     (\<forall>sol \<in> set (found_solutions (fst c)). 0 \<le> cost sol) \<and>
     (\<forall>pc \<in> set (snd c). pc_cost_ok pc)"

text \<open>
  The chain of parent links from a board ends: after finitely many links it reaches a
  board equal to the initial board (equal tiles), or a board that has no parent.
\<close>

inductive chain_ends :: "(int list \<rightharpoonup> Board) \<Rightarrow> Board \<Rightarrow> Board \<Rightarrow> bool"
  for cf initial_board where
  at_initial: "tiles current = tiles initial_board \<Longrightarrow> chain_ends cf initial_board current"
| broken: "tiles current \<noteq> tiles initial_board \<Longrightarrow> cf (tiles current) = None \<Longrightarrow>
     chain_ends cf initial_board current"
| link: "tiles current \<noteq> tiles initial_board \<Longrightarrow> cf (tiles current) = Some parent \<Longrightarrow>
     chain_ends cf initial_board parent \<Longrightarrow> chain_ends cf initial_board current"

text \<open>The board that \<open>adjacent_swap_step\<close> appends for a direction.\<close>

definition swap_neighbor :: "Board \<Rightarrow> direction \<Rightarrow> Board" where
  "swap_neighbor b d =
     b\<lparr>tiles := swap_tiles (tiles b) (empty_row b * M b + empty_col b)
                  ((empty_row b + dr d) * M b + (empty_col b + dc d)),
       empty_row := empty_row b + dr d, empty_col := empty_col b + dc d\<rparr>"




text \<open>
  A sequence of boards in which every board is followed by one of its successors under
  a cost model.
\<close>

fun move_sequence :: "SolveType \<Rightarrow> Board list \<Rightarrow> bool" where
  "move_sequence type [] \<longleftrightarrow> True"
| "move_sequence type [b] \<longleftrightarrow> True"
| "move_sequence type (b # b' # rest) \<longleftrightarrow>
     b' \<in> set (get_neighbors type b) \<and> move_sequence type (b' # rest)"

text \<open>
  An invariant of the runs of \<open>solve\<close> on an initial board: every board in the
  frontier or held by a worker has the dimensions of the initial board, a worker that
  reconstructs a path holds a goal board and has started the path with it, and the
  path of every solution found starts with the initial board and ends with a goal
  board.
\<close>

definition same_dims :: "Board \<Rightarrow> Board \<Rightarrow> bool" where
  "same_dims a b \<longleftrightarrow> N a = N b \<and> M a = M b"

definition path_ends_ok :: "Board \<Rightarrow> Solution \<Rightarrow> bool" where
  "path_ends_ok ib sol \<longleftrightarrow>
     path sol \<noteq> [] \<and> hd (path sol) = ib \<and> is_goal (last (path sol))"

fun pc_dims_ok :: "Board \<Rightarrow> worker_pc \<Rightarrow> bool" where
  "pc_dims_ok ib (Counting cur) \<longleftrightarrow> same_dims (board cur) ib"
| "pc_dims_ok ib (Pruning cur) \<longleftrightarrow> same_dims (board cur) ib"
| "pc_dims_ok ib (StaleCheck cur) \<longleftrightarrow> same_dims (board cur) ib"
| "pc_dims_ok ib (Locking cur) \<longleftrightarrow> same_dims (board cur) ib \<and> is_goal (board cur)"
| "pc_dims_ok ib (Reconstructing cur current pth) \<longleftrightarrow>
     same_dims (board cur) ib \<and> is_goal (board cur) \<and>
     (if pth = [] then current = board cur else hd pth = board cur)"
| "pc_dims_ok ib (Inserting cur pth) \<longleftrightarrow> path_ends_ok ib \<lparr>cost = g_cost cur, path = pth\<rparr>"
| "pc_dims_ok ib (Relaxing cur rest) \<longleftrightarrow> (\<forall>nb \<in> set rest. same_dims nb ib)"
| "pc_dims_ok ib (Comparing cur nb rest) \<longleftrightarrow>
     same_dims nb ib \<and> (\<forall>nb \<in> set rest. same_dims nb ib)"
| "pc_dims_ok ib (Writing cur nb rest) \<longleftrightarrow>
     same_dims nb ib \<and> (\<forall>nb \<in> set rest. same_dims nb ib)"
| "pc_dims_ok ib (Pushing cur nb inserted rest) \<longleftrightarrow>
     same_dims nb ib \<and> (\<forall>nb \<in> set rest. same_dims nb ib)"
| "pc_dims_ok ib (Linking cur nb inserted rest) \<longleftrightarrow>
     same_dims nb ib \<and> (\<forall>nb \<in> set rest. same_dims nb ib)"
| "pc_dims_ok ib AtLoopTest \<longleftrightarrow> True"
| "pc_dims_ok ib AtPop \<longleftrightarrow> True"
| "pc_dims_ok ib Stopping \<longleftrightarrow> True"
| "pc_dims_ok ib Finished \<longleftrightarrow> True"

definition run_invariant :: "Board \<Rightarrow> PuzzleSolver \<times> worker_pc list \<Rightarrow> bool" where
  "run_invariant ib c \<longleftrightarrow>
     (\<forall>st \<in> set (open_set (fst c)). same_dims (board st) ib) \<and>
     (\<forall>sol \<in> set (found_solutions (fst c)). path_ends_ok ib sol) \<and>
     (\<forall>pc \<in> set (snd c). pc_dims_ok ib pc)"

text \<open>Example boards and runs, for the concrete instances of the theorems.\<close>

definition board_2x3 :: Board where
  "board_2x3 = \<lparr>N = 2, M = 3, tiles = [1, 2, 3, 4, 0, 5], empty_row = 1, empty_col = 1\<rparr>"

definition board_goal_2x3 :: Board where
  "board_goal_2x3 = \<lparr>N = 2, M = 3, tiles = [1, 2, 3, 4, 5, 0], empty_row = 1, empty_col = 2\<rparr>"

definition board_1x4 :: Board where
  "board_1x4 = \<lparr>N = 1, M = 4, tiles = [0, 1, 2, 3], empty_row = 0, empty_col = 0\<rparr>"

definition st1 :: State where "st1 = State_ctor board_2x3 3 4"
definition st2 :: State where "st2 = State_ctor board_1x4 2 3"
definition st3 :: State where "st3 = State_ctor board_1x4 1 4"

definition board_goal_1x3 :: Board where
  "board_goal_1x3 = \<lparr>N = 1, M = 3, tiles = [1, 2, 0], empty_row = 0, empty_col = 2\<rparr>"

definition stale_state :: State where
  "stale_state = State_ctor board_2x3 3 1"

definition table_with_cheaper_entry :: PuzzleSolver where
  "table_with_cheaper_entry =
     \<lparr>open_set = [],
      g_costs = [tiles board_2x3 \<mapsto> 1],
      came_from = [tiles board_2x3 \<mapsto> board_goal_2x3],
      found_solutions = [],
      solutions_mutex = False,
      terminate_search = False,
      states_explored = 7\<rparr>"

definition board_init_1x3 :: Board where
  "board_init_1x3 = \<lparr>N = 1, M = 3, tiles = [0, 1, 2], empty_row = 0, empty_col = 0\<rparr>"

definition board_mid_1x3 :: Board where
  "board_mid_1x3 = \<lparr>N = 1, M = 3, tiles = [1, 0, 2], empty_row = 0, empty_col = 1\<rparr>"

definition parents_1x3 :: "int list \<rightharpoonup> Board" where
  "parents_1x3 = [tiles board_mid_1x3 \<mapsto> board_init_1x3, tiles board_goal_1x3 \<mapsto> board_mid_1x3]"

definition parents_cyclic :: "int list \<rightharpoonup> Board" where
  "parents_cyclic = [tiles board_mid_1x3 \<mapsto> board_goal_1x3, tiles board_goal_1x3 \<mapsto> board_mid_1x3]"

definition board_1x4_one :: Board where
  "board_1x4_one = \<lparr>N = 1, M = 4, tiles = [1, 0, 2, 3], empty_row = 0, empty_col = 1\<rparr>"

definition board_goal_1x4 :: Board where
  "board_goal_1x4 = \<lparr>N = 1, M = 4, tiles = [1, 2, 3, 0], empty_row = 0, empty_col = 3\<rparr>"

text \<open>
  Schedules. \<open>moves i n\<close>: worker \<open>i\<close> takes \<open>n\<close> steps in a row (with position 0
  for a pop and clock reading 0).
\<close>

definition moves :: "nat \<Rightarrow> nat \<Rightarrow> (nat \<times> nat \<times> int) list" where
  "moves i n = replicate n (i, 0, 0)"

text \<open>
  Two workers on the board \<open>0 1 2\<close>, adjacent swaps. Worker 0 expands the initial
  board and then the board \<open>1 0 2\<close>, up to and including \<^verbatim>\<open>open_set.push\<close> for the
  goal board \<open>1 2 0\<close> (18 steps). Worker 1 then runs a whole iteration on the goal
  board and leaves (9 steps). Worker 0 records the parent of the goal board and leaves.
\<close>

definition race_schedule :: "(nat \<times> nat \<times> int) list" where
  "race_schedule = moves 0 18 @ moves 1 9 @ moves 0 3"



text \<open>
  Three workers on the board \<open>0 1 2 3\<close>, block shifts. Worker 0 pops the initial
  board and relaxes its first neighbour \<open>1 0 2 3\<close> (8 steps). Worker 1 expands that
  board up to its neighbour \<open>1 2 0 3\<close>, which enters the table with cost 2 (10
  steps). Worker 2 expands \<open>1 2 0 3\<close> up to \<^verbatim>\<open>g_costs.emplace\<close> for the board
  \<open>1 2 3 0\<close>, which enters the table with cost 3 (10 steps).
\<close>

definition table_schedule :: "(nat \<times> nat \<times> int) list" where
  "table_schedule = moves 0 8 @ moves 1 10 @ moves 2 10"

text \<open>
  Then worker 1 comes to the board \<open>1 2 3 0\<close> and finds its cost 2 smaller than the
  stored 3 (2 steps); before it assigns, worker 0 relaxes \<open>1 2 0 3\<close> and then
  \<open>1 2 3 0\<close>, up to the assignment of the cost 1 (8 steps).
\<close>

definition overtake_schedule :: "(nat \<times> nat \<times> int) list" where
  "overtake_schedule = moves 1 2 @ moves 0 8"

text \<open>
  After the assignment of worker 1, every worker finishes the neighbour it is at:
  worker 1, worker 2, worker 0.
\<close>

definition settle_schedule :: "(nat \<times> nat \<times> int) list" where
  "settle_schedule = moves 1 3 @ moves 2 3 @ moves 0 3"

section \<open>Block shift: the number of successors\<close>

lemma steps_left_step:
  "in_bounds b r c \<Longrightarrow> steps_left b d r c = Suc (steps_left b d (r + dr d) (c + dc d))"
  by (cases d) (auto simp: steps_left_def in_bounds_def)

lemma length_block_shift_loop:
  "length (block_shift_loop b d csb r c nb) = length nb + steps_left b d r c"
proof (induction b d csb r c nb rule: block_shift_loop.induct)
  case (1 b d csb r c nb)
  show ?case
  proof (cases "in_bounds b r c")
    case True
    then show ?thesis
      using "1.IH" [OF True refl refl refl]
      by (subst block_shift_loop.simps) (simp add: Let_def steps_left_step [OF True])
  next
    case False
    then show ?thesis
      by (subst block_shift_loop.simps) (simp add: steps_left_def)
  qed
qed

lemma steps_left_first:
  "in_bounds b (empty_row b) (empty_col b) \<Longrightarrow>
   int (steps_left b d (empty_row b + dr d) (empty_col b + dc d)) = cells_to_edge b d"
  by (cases d) (auto simp: steps_left_def in_bounds_def cells_to_edge_def)

lemma length_block_shift_step:
  "in_bounds b (empty_row b) (empty_col b) \<Longrightarrow>
   int (length (block_shift_step b nb d)) = int (length nb) + cells_to_edge b d"
  by (simp add: block_shift_step_def length_block_shift_loop steps_left_first)

text \<open>
  Claim C10. On a valid \<open>N\<close> by \<open>M\<close> board, wherever the blank is,
  \<open>get_neighbors_block_shift\<close> returns exactly \<open>(N - 1) + (M - 1)\<close> successors:
  along each direction, one per cell between the blank and the edge of the grid.
\<close>

theorem block_shift_branching_factor:
  assumes "valid_board b"
  shows "int (length (get_neighbors_block_shift b)) = (N b - 1) + (M b - 1)
       \<and> (\<forall>d. int (length (block_shift_step b [] d)) = cells_to_edge b d)"
proof -
  have ib: "in_bounds b (empty_row b) (empty_col b)"
    using assms by (simp add: valid_board_def)
  have "int (length (get_neighbors_block_shift b)) = (N b - 1) + (M b - 1)"
    by (simp add: get_neighbors_block_shift_def directions_def
        length_block_shift_step [OF ib] cells_to_edge_def)
  moreover have "\<forall>d. int (length (block_shift_step b [] d)) = cells_to_edge b d"
    by (simp add: length_block_shift_step [OF ib])
  ultimately show ?thesis by simp
qed

theorem block_shift_branching_factor_witness:
  "valid_board board_2x3 \<and> length (get_neighbors_block_shift board_2x3) = 3
   \<and> length (block_shift_step board_2x3 [] Up) = 1
   \<and> length (block_shift_step board_2x3 [] Down) = 0"
proof -
  have v: "valid_board board_2x3"
    unfolding valid_board_def board_2x3_def in_bounds_def by code_simp
  have c: "cells_to_edge board_2x3 Up = 1" "cells_to_edge board_2x3 Down = 0"
    by (simp_all add: cells_to_edge_def board_2x3_def)
  have nm: "N board_2x3 = 2" "M board_2x3 = 3"
    by (simp_all add: board_2x3_def)
  from block_shift_branching_factor [OF v]
  have total: "int (length (get_neighbors_block_shift board_2x3)) = 3"
    and each: "\<And>d. int (length (block_shift_step board_2x3 [] d)) = cells_to_edge board_2x3 d"
    by (simp_all add: nm)
  have "length (get_neighbors_block_shift board_2x3) = 3" using total by linarith
  moreover have "length (block_shift_step board_2x3 [] Up) = 1"
    using each [of Up] c by linarith
  moreover have "length (block_shift_step board_2x3 [] Down) = 0"
    using each [of Down] c by linarith
  ultimately show ?thesis using v by simp
qed

section \<open>The steps of a worker\<close>

lemma worker_stepI:
  "worker_thread_func type K ib lim pick elapsed s pc = Some c' \<Longrightarrow>
   worker_step type K ib lim (s, pc) c'"
  unfolding worker_step_def by auto

lemma worker_stepE:
  assumes "worker_step type K ib lim (s, pc) (s', pc')"
  obtains pick elapsed where
    "worker_thread_func type K ib lim pick elapsed s pc = Some (s', pc')"
  using assms unfolding worker_step_def by auto

lemma solver_stepI:
  assumes "i < length pcs" and "pcs ! i = pc"
    and "worker_step type K ib lim (s, pc) (s', pc')" and "pcs' = pcs[i := pc']"
  shows "solver_step type K ib lim (s, pcs) (s', pcs')"
  using solver_step.intros [of i pcs type K ib lim s s' pc'] assms by simp

lemma run_schedule_sound:
  "run_schedule type K ib lim sched c = Some c' \<Longrightarrow> (solver_step type K ib lim)\<^sup>*\<^sup>* c c'"
proof (induction sched arbitrary: c)
  case Nil
  then show ?case by simp
next
  case (Cons e sched)
  obtain i pick elapsed where e: "e = (i, pick, elapsed)" by (cases e) auto
  obtain s pcs where c: "c = (s, pcs)" by (cases c) auto
  from Cons.prems have i: "i < length pcs"
    unfolding e c by (simp split: if_splits)
  from Cons.prems i obtain s1 pc1 where
    w: "worker_thread_func type K ib lim pick elapsed s (pcs ! i) = Some (s1, pc1)"
    and r: "run_schedule type K ib lim sched (s1, pcs[i := pc1]) = Some c'"
    unfolding e c by (auto split: option.splits)
  have "solver_step type K ib lim (s, pcs) (s1, pcs[i := pc1])"
    by (rule solver_stepI [OF i refl worker_stepI [OF w] refl])
  then show ?case using Cons.IH [OF r] unfolding c by simp
qed

lemma run_schedule_append:
  "run_schedule type K ib lim (xs @ ys) c =
     (case run_schedule type K ib lim xs c of
        None \<Rightarrow> None | Some c' \<Rightarrow> run_schedule type K ib lim ys c')"
proof (induction xs arbitrary: c)
  case Nil
  show ?case by simp
next
  case (Cons e xs)
  obtain i pick elapsed where e: "e = (i, pick, elapsed)" by (cases e) auto
  obtain s pcs where c: "c = (s, pcs)" by (cases c) auto
  show ?case unfolding e c using Cons.IH by (auto split: option.splits)
qed

lemma run_schedule_single:
  assumes "run_schedule type K ib lim [(i, pick, elapsed)] (s, pcs) = Some (s', pcs')"
  shows "i < length pcs \<and> (\<exists>pc'. pcs' = pcs[i := pc'] \<and>
     worker_thread_func type K ib lim pick elapsed s (pcs ! i) = Some (s', pc'))"
  using assms by (auto split: if_splits option.splits)

lemma worker_steps_lift:
  assumes "(worker_step type K ib lim)\<^sup>*\<^sup>* (s, pc) (s', pc')" and "i < length pcs" and "pcs ! i = pc"
  shows "(solver_step type K ib lim)\<^sup>*\<^sup>* (s, pcs) (s', pcs[i := pc'])"
  using assms
proof (induction "(s', pc')" arbitrary: s' pc' rule: rtranclp_induct)
  case base
  then show ?case by (simp add: list_update_same_conv [THEN iffD2])
next
  case (step y)
  obtain s1 pc1 where y: "y = (s1, pc1)" by (cases y) auto
  have a: "(solver_step type K ib lim)\<^sup>*\<^sup>* (s, pcs) (s1, pcs[i := pc1])"
    using step.hyps(3) [OF y step.prems] .
  have "solver_step type K ib lim (s1, pcs[i := pc1]) (s', (pcs[i := pc1])[i := pc'])"
    by (rule solver_stepI [where i = i and pc = pc1])
       (use step.hyps(2) step.prems(1) in \<open>simp_all add: y\<close>)
  then show ?case using a by simp
qed

text \<open>
  The steps of one worker that relaxes a neighbour with no other worker moving in
  between compose to \<open>relax\<close>.
\<close>

lemma worker_step_chain2:
  assumes "worker_thread_func type K ib lim p1 e1 s pc = Some (s1, pc1)"
    and "(worker_step type K ib lim)\<^sup>*\<^sup>* (s1, pc1) c"
  shows "(worker_step type K ib lim)\<^sup>*\<^sup>* (s, pc) c"
  using worker_stepI [OF assms(1)] assms(2) by (rule converse_rtranclp_into_rtranclp)

lemma relax_steps:
  "(worker_step type K ib lim)\<^sup>*\<^sup>* (s, Relaxing cur (nb # rest)) (relax cur s nb, Relaxing cur rest)"
proof (cases "g_costs s (tiles nb)")
  case None
  show ?thesis
    apply (rule worker_step_chain2 [where ?p1.0 = 0 and ?e1.0 = 0], simp add: None)
    apply (rule worker_step_chain2 [where ?p1.0 = 0 and ?e1.0 = 0], simp)
    apply (rule worker_step_chain2 [where ?p1.0 = 0 and ?e1.0 = 0], simp)
    apply (simp add: relax_def Let_def None)
    done
next
  case (Some g)
  show ?thesis
  proof (cases "g_cost cur + 1 < g")
    case True
    show ?thesis
      apply (rule worker_step_chain2 [where ?p1.0 = 0 and ?e1.0 = 0], simp add: Some)
      apply (rule worker_step_chain2 [where ?p1.0 = 0 and ?e1.0 = 0], simp add: Some True)
      apply (rule worker_step_chain2 [where ?p1.0 = 0 and ?e1.0 = 0], simp)
      apply (rule worker_step_chain2 [where ?p1.0 = 0 and ?e1.0 = 0], simp)
      apply (rule worker_step_chain2 [where ?p1.0 = 0 and ?e1.0 = 0], simp)
      apply (simp add: relax_def Let_def Some True)
      done
  next
    case False
    show ?thesis
      apply (rule worker_step_chain2 [where ?p1.0 = 0 and ?e1.0 = 0], simp add: Some)
      apply (rule worker_step_chain2 [where ?p1.0 = 0 and ?e1.0 = 0], simp add: Some False)
      apply (simp add: relax_def Let_def Some False)
      done
  qed
qed

lemma relax_all_steps:
  "(worker_step type K ib lim)\<^sup>*\<^sup>* (s, Relaxing cur nbs) (foldl (relax cur) s nbs, AtLoopTest)"
proof (induction nbs arbitrary: s)
  case Nil
  have "worker_step type K ib lim (s, Relaxing cur []) (s, AtLoopTest)"
    by (rule worker_stepI [where pick = 0 and elapsed = 0]) simp
  then show ?case by simp
next
  case (Cons nb nbs)
  show ?case
    using relax_steps [of type K ib lim s cur nb nbs] Cons.IH [of "relax cur s nb"]
    by simp
qed


section \<open>Block shift: the successors along a direction\<close>


























section \<open>The Manhattan distance under adjacent swaps\<close>

lemma sdiv_nonneg: "0 \<le> k \<Longrightarrow> 0 < l \<Longrightarrow> k sdiv l = k div (l :: int)"
  by (cases "k = 0") (simp_all add: signed_divide_int_def sgn_if)

lemma smod_nonneg: "0 \<le> k \<Longrightarrow> 0 < l \<Longrightarrow> k smod l = k mod (l :: int)"
  by (cases "k = 0") (simp_all add: signed_modulo_int_def sgn_if)












lemma adjacent_swap_step_eq:
  "adjacent_swap_step b nbs d =
     (if in_bounds b (empty_row b + dr d) (empty_col b + dc d)
      then nbs @ [swap_neighbor b d] else nbs)"
  by (simp add: adjacent_swap_step_def swap_neighbor_def Let_def)

lemma adjacent_neighbor_cases:
  assumes "b' \<in> set (get_neighbors_adjacent_swap b)"
  obtains d where "in_bounds b (empty_row b + dr d) (empty_col b + dc d)"
    and "b' = swap_neighbor b d"
proof -
  let ?ok = "\<lambda>d. in_bounds b (empty_row b + dr d) (empty_col b + dc d) \<and> b' = swap_neighbor b d"
  have "?ok Up \<or> ?ok Down \<or> ?ok Left \<or> ?ok Right"
    using assms
    unfolding get_neighbors_adjacent_swap_def directions_def
    by (auto simp: adjacent_swap_step_eq split: if_splits)
  then show ?thesis using that by blast
qed







lemma wrap_int_le: "0 \<le> x \<Longrightarrow> wrap_int x \<le> x"
proof -
  assume "0 \<le> x"
  then have "(x + 2 ^ 31) mod 2 ^ 32 \<le> x + 2 ^ 31"
    by (intro zmod_le_nonneg_dividend) simp
  then show ?thesis by (simp add: wrap_int_def)
qed

subsection \<open>A row of 65537 tiles\<close>








section \<open>The order of the frontier\<close>

lemma compare_state_iff:
  "CompareStateForTBB a b \<longleftrightarrow>
     f_cost a > f_cost b \<or> (f_cost a = f_cost b \<and> g_cost a > g_cost b)"
  by (auto simp: CompareStateForTBB_def)

lemma highest_priority_exists: "q \<noteq> [] \<Longrightarrow> \<exists>x. highest_priority q x"
proof (induction q)
  case Nil
  then show ?case by simp
next
  case (Cons a q)
  show ?case
  proof (cases "q = []")
    case True
    then show ?thesis by (auto simp: highest_priority_def compare_state_iff)
  next
    case False
    then obtain m where m: "highest_priority q m" using Cons.IH by blast
    show ?thesis
    proof (cases "CompareStateForTBB m a")
      case True
      have "highest_priority (a # q) a"
        unfolding highest_priority_def
      proof (intro conjI ballI)
        show "a \<in> set (a # q)" by simp
        fix y assume "y \<in> set (a # q)"
        then consider "y = a" | "y \<in> set q" by auto
        then show "\<not> CompareStateForTBB a y"
        proof cases
          case 1
          then show ?thesis by (simp add: compare_state_iff)
        next
          case 2
          then have "\<not> CompareStateForTBB m y" using m by (simp add: highest_priority_def)
          then show ?thesis using True by (auto simp: compare_state_iff)
        qed
      qed
      then show ?thesis by blast
    next
      case False
      then have "highest_priority (a # q) m"
        using m by (auto simp: highest_priority_def)
      then show ?thesis by blast
    qed
  qed
qed

text \<open>
  Claim C7. \<open>CompareStateForTBB a b\<close> holds exactly when \<open>a\<close> has the greater
  \<open>f_cost\<close>, or the same \<open>f_cost\<close> and the greater \<open>g_cost\<close>. So the element
  that the frontier delivers (one that the comparator puts before no other) has the
  smallest \<open>f_cost\<close> and, among those of the same \<open>f_cost\<close>, the smallest
  \<open>g_cost\<close>; and a frontier that is not empty has such an element.
\<close>

theorem frontier_priority_order:
  "(CompareStateForTBB a b \<longleftrightarrow>
      f_cost a > f_cost b \<or> (f_cost a = f_cost b \<and> g_cost a > g_cost b))
   \<and> (\<forall>q x. highest_priority q x \<longrightarrow>
         (\<forall>y \<in> set q. f_cost x \<le> f_cost y \<and> (f_cost y = f_cost x \<longrightarrow> g_cost x \<le> g_cost y)))
   \<and> (\<forall>q. q \<noteq> [] \<longrightarrow> (\<exists>x. highest_priority q x))"
proof (intro conjI allI impI ballI)
  show "CompareStateForTBB a b \<longleftrightarrow>
      f_cost a > f_cost b \<or> (f_cost a = f_cost b \<and> g_cost a > g_cost b)"
    by (rule compare_state_iff)
next
  fix q x y assume h: "highest_priority q x" and y: "y \<in> set q"
  then have n: "\<not> CompareStateForTBB x y" by (simp add: highest_priority_def)
  show "f_cost x \<le> f_cost y" using n by (auto simp: compare_state_iff)
  assume "f_cost y = f_cost x"
  then show "g_cost x \<le> g_cost y" using n by (auto simp: compare_state_iff)
next
  fix q :: "State list" assume "q \<noteq> []"
  then show "\<exists>x. highest_priority q x" by (rule highest_priority_exists)
qed

theorem frontier_priority_order_witness:
  "highest_priority [st1, st2, st3] st3
   \<and> CompareStateForTBB st1 st2 \<and> CompareStateForTBB st2 st3 \<and> \<not> CompareStateForTBB st3 st2
   \<and> f_cost st3 \<le> f_cost st1 \<and> f_cost st3 = f_cost st2 \<and> g_cost st3 \<le> g_cost st2"
proof -
  have h: "highest_priority [st1, st2, st3] st3"
    by (simp add: highest_priority_def CompareStateForTBB_def st1_def st2_def st3_def State_ctor_def)
  from frontier_priority_order [of st1 st2]
  have c: "CompareStateForTBB st1 st2 \<longleftrightarrow>
      f_cost st1 > f_cost st2 \<or> (f_cost st1 = f_cost st2 \<and> g_cost st1 > g_cost st2)"
    and p: "\<And>q x y. highest_priority q x \<Longrightarrow> y \<in> set q \<Longrightarrow>
        f_cost x \<le> f_cost y \<and> (f_cost y = f_cost x \<longrightarrow> g_cost x \<le> g_cost y)"
    by blast+
  have "f_cost st3 \<le> f_cost st1" using p [OF h, of st1] by simp
  moreover have "f_cost st3 = f_cost st2" by (simp add: st2_def st3_def State_ctor_def)
  moreover have "g_cost st3 \<le> g_cost st2" using p [OF h, of st2] calculation by simp
  moreover have "CompareStateForTBB st1 st2"
    using c by (simp add: st1_def st2_def State_ctor_def)
  moreover have "CompareStateForTBB st2 st3" "\<not> CompareStateForTBB st3 st2"
    by (simp_all add: CompareStateForTBB_def st2_def st3_def State_ctor_def)
  ultimately show ?thesis using h by simp
qed

section \<open>The order of solutions and the solution set\<close>























lemma set_set_insert: "set (set_insert x ys) \<subseteq> insert x (set ys)"
  by (induction ys) auto


lemma extract_solutions_take:
  "extract_solutions sols K c acc = acc @ take (nat (K - c)) sols"
proof (induction sols arbitrary: c acc)
  case Nil
  then show ?case by simp
next
  case (Cons sol rest)
  show ?case
  proof (cases "c \<ge> K")
    case True
    then show ?thesis by simp
  next
    case False
    then have "nat (K - c) = Suc (nat (K - (c + 1)))" by simp
    then show ?thesis using False Cons.IH [of "c + 1" "acc @ [sol]"] by simp
  qed
qed


section \<open>What a worker step keeps\<close>

lemma insert_solution_fields [simp]:
  "open_set (insert_solution K cur pth s) = open_set s"
  "g_costs (insert_solution K cur pth s) = g_costs s"
  "came_from (insert_solution K cur pth s) = came_from s"
  "solutions_mutex (insert_solution K cur pth s) = solutions_mutex s"
  "states_explored (insert_solution K cur pth s) = states_explored s"
  "found_solutions (insert_solution K cur pth s) =
     set_insert \<lparr>cost = g_cost cur, path = pth\<rparr> (found_solutions s)"
  by (simp_all add: insert_solution_def Let_def)

lemma relax_parent_fields [simp]:
  "open_set (relax_parent cur nb ins s) = open_set s"
  "g_costs (relax_parent cur nb ins s) = g_costs s"
  "found_solutions (relax_parent cur nb ins s) = found_solutions s"
  "solutions_mutex (relax_parent cur nb ins s) = solutions_mutex s"
  "terminate_search (relax_parent cur nb ins s) = terminate_search s"
  "states_explored (relax_parent cur nb ins s) = states_explored s"
  by (simp_all add: relax_parent_def)

lemma worker_step_found:
  assumes "worker_step type K ib lim (s, pc) (s', pc')"
  shows "(found_solutions s' = found_solutions s \<and> (\<forall>cur pth. pc \<noteq> Inserting cur pth)) \<or>
     (\<exists>cur pth. pc = Inserting cur pth \<and> pc' = AtLoopTest \<and>
        found_solutions s' = set_insert \<lparr>cost = g_cost cur, path = pth\<rparr> (found_solutions s))"
proof -
  from assms obtain pick elapsed where
    w: "worker_thread_func type K ib lim pick elapsed s pc = Some (s', pc')"
    by (rule worker_stepE)
  show ?thesis
  proof (cases pc)
    case (Relaxing cur nbs)
    then show ?thesis using w by (cases nbs) (auto split: option.splits)
  qed (use w in \<open>auto simp: Let_def split: if_splits\<close>)
qed

lemma worker_step_open_set:
  assumes "worker_step type K ib lim (s, pc) (s', pc')"
  shows "open_set s' = open_set s
     \<or> (\<exists>cur. pc = AtPop \<and> pc' = Counting cur \<and> cur \<in> set (open_set s)
           \<and> open_set s' = remove1 cur (open_set s))
     \<or> (\<exists>cur nb ins rest. pc = Pushing cur nb ins rest \<and>
           open_set s' = open_set s @
             [State_ctor nb (g_cost cur + 1) (get_manhattan_distance nb)])"
proof -
  from assms obtain pick elapsed where
    w: "worker_thread_func type K ib lim pick elapsed s pc = Some (s', pc')"
    by (rule worker_stepE)
  show ?thesis
  proof (cases pc)
    case (Relaxing cur nbs)
    then show ?thesis using w by (cases nbs) (auto split: option.splits)
  next
    case AtPop
    then show ?thesis using w by (auto simp: highest_priority_def split: if_splits)
  qed (use w in \<open>auto simp: Let_def split: if_splits\<close>)
qed

text \<open>The popped state held by a worker after a step is the one it held, or the one popped.\<close>

lemma worker_step_pc_state:
  assumes "worker_step type K ib lim (s, pc) (s', pc')"
  shows "pc_state pc' = None \<or> pc_state pc' = pc_state pc
     \<or> (\<exists>cur. pc = AtPop \<and> pc' = Counting cur \<and> cur \<in> set (open_set s))"
proof -
  from assms obtain pick elapsed where
    w: "worker_thread_func type K ib lim pick elapsed s pc = Some (s', pc')"
    by (rule worker_stepE)
  show ?thesis
  proof (cases pc)
    case (Relaxing cur nbs)
    then show ?thesis using w by (cases nbs) (auto split: option.splits)
  next
    case AtPop
    then show ?thesis using w by (auto simp: highest_priority_def split: if_splits)
  qed (use w in \<open>auto simp: Let_def split: if_splits option.splits\<close>)
qed



lemma worker_step_costs:
  assumes w: "worker_step type K ib lim (s, pc) (s', pc')"
    and q: "\<forall>st \<in> set (open_set s). 0 \<le> g_cost st"
    and f: "\<forall>sol \<in> set (found_solutions s). 0 \<le> cost sol"
    and pi: "pc_cost_ok pc"
  shows "(\<forall>st \<in> set (open_set s'). 0 \<le> g_cost st) \<and>
         (\<forall>sol \<in> set (found_solutions s'). 0 \<le> cost sol) \<and> pc_cost_ok pc'"
proof -
  have a: "\<forall>st \<in> set (open_set s'). 0 \<le> g_cost st"
    using worker_step_open_set [OF w] q pi
    by (auto simp: pc_cost_ok_def State_ctor_def dest: notin_set_remove1)
  have b: "\<forall>sol \<in> set (found_solutions s'). 0 \<le> cost sol"
  proof
    fix sol assume m: "sol \<in> set (found_solutions s')"
    from worker_step_found [OF w] show "0 \<le> cost sol"
    proof (elim disjE exE conjE)
      assume "found_solutions s' = found_solutions s"
      then show ?thesis using m f by simp
    next
      fix cur pth
      assume pc: "pc = Inserting cur pth"
        and e: "found_solutions s' = set_insert \<lparr>cost = g_cost cur, path = pth\<rparr> (found_solutions s)"
      have "sol = \<lparr>cost = g_cost cur, path = pth\<rparr> \<or> sol \<in> set (found_solutions s)"
        using m e set_set_insert [of "\<lparr>cost = g_cost cur, path = pth\<rparr>" "found_solutions s"]
        by auto
      then show ?thesis using f pi pc by (auto simp: pc_cost_ok_def)
    qed
  qed
  have c: "pc_cost_ok pc'"
    using worker_step_pc_state [OF w] pi q by (auto simp: pc_cost_ok_def)
  show ?thesis using a b c by simp
qed

lemma set_update_pc:
  "\<forall>pc \<in> set pcs. P pc \<Longrightarrow> P pc' \<Longrightarrow> \<forall>pc \<in> set (pcs[i := pc']). P pc"
  using set_update_subset_insert [of pcs i pc'] by auto

lemma solver_step_costs:
  assumes "solver_step type K ib lim c c'" and "costs_nonneg c"
  shows "costs_nonneg c'"
  using assms(1)
proof (cases rule: solver_step.cases)
  case (1 i pcs s s' pc')
  have q: "\<forall>st \<in> set (open_set s). 0 \<le> g_cost st"
    and f: "\<forall>sol \<in> set (found_solutions s). 0 \<le> cost sol"
    and p: "\<forall>pc \<in> set pcs. pc_cost_ok pc"
    using assms(2) 1(1) by (simp_all add: costs_nonneg_def)
  have pi: "pc_cost_ok (pcs ! i)" using p 1(3) by simp
  note step = worker_step_costs [OF 1(4) q f pi]
  have "\<forall>pc \<in> set (pcs[i := pc']). pc_cost_ok pc"
    using set_update_pc [of pcs pc_cost_ok, OF p] step by blast
  then show ?thesis
    unfolding 1(2) costs_nonneg_def using step by simp
qed

lemma solve_init_costs: "costs_nonneg (solve_init ib, replicate n AtLoopTest)"
  by (simp add: costs_nonneg_def solve_init_def State_ctor_def pc_cost_ok_def)

lemma reachable_costs:
  assumes "(solver_step type K ib lim)\<^sup>*\<^sup>* (solve_init ib, replicate n AtLoopTest) c"
  shows "costs_nonneg c"
  using assms
proof (induction rule: rtranclp_induct)
  case base
  show ?case by (rule solve_init_costs)
next
  case (step y z)
  then show ?case using solver_step_costs by blast
qed



section \<open>The solutions returned by solve\<close>





section \<open>Stale states\<close>

text \<open>
  Claim C5, as amended. If the cost table holds for the board of the popped state a cost
  that is strictly smaller than the cost of the state, the iteration does nothing but
  count the state: the frontier (after the pop), the cost table, the parents and the
  solution set are as before, and the loop goes on. The one exception is the time
  limit, which is tested first: when it is reached, the iteration also sets the stop
  flag and leaves the loop. (The theorem gives the result of the whole iteration in
  both cases, for a worker that runs the iteration with no other worker in between;
  and, for workers that run concurrently, the step of the worker that stands at the
  staleness test: it changes nothing and takes the worker back to the loop test.)
\<close>

theorem stale_state_discarded:
  assumes "g_costs s (tiles (board cur)) = Some g" and "g < g_cost cur"
  shows "worker_iteration type K ib lim el cur s =
     (if lim > 0 \<and> el \<ge> lim
      then Some (False, s\<lparr>states_explored := states_explored s + 1, terminate_search := True\<rparr>)
      else Some (True, s\<lparr>states_explored := states_explored s + 1\<rparr>))
   \<and> (\<forall>s' pc'. worker_step type K ib lim (s, StaleCheck cur) (s', pc') \<longrightarrow>
          s' = s \<and> pc' = AtLoopTest)"
proof -
  have "worker_iteration type K ib lim el cur s =
     (if lim > 0 \<and> el \<ge> lim
      then Some (False, s\<lparr>states_explored := states_explored s + 1, terminate_search := True\<rparr>)
      else Some (True, s\<lparr>states_explored := states_explored s + 1\<rparr>))"
    using assms by (simp add: worker_iteration_def loop_head_def Let_def)
  moreover have "s' = s \<and> pc' = AtLoopTest"
    if "worker_step type K ib lim (s, StaleCheck cur) (s', pc')" for s' pc'
  proof -
    from that obtain pick elapsed where
      "worker_thread_func type K ib lim pick elapsed s (StaleCheck cur) = Some (s', pc')"
      by (rule worker_stepE)
    then show ?thesis using assms by simp
  qed
  ultimately show ?thesis by blast
qed

theorem stale_state_discarded_witness:
  "g_costs table_with_cheaper_entry (tiles (board stale_state)) = Some 1
   \<and> 1 < g_cost stale_state
   \<and> worker_iteration BlockShift 1 board_1x4 0 9 stale_state table_with_cheaper_entry =
       Some (True, table_with_cheaper_entry\<lparr>states_explored := 8\<rparr>)
   \<and> worker_step BlockShift 1 board_1x4 0
         (table_with_cheaper_entry, StaleCheck stale_state) (table_with_cheaper_entry, AtLoopTest)"
proof -
  have a: "g_costs table_with_cheaper_entry (tiles (board stale_state)) = Some 1"
    by (simp add: table_with_cheaper_entry_def stale_state_def State_ctor_def)
  have b: "1 < g_cost stale_state" by (simp add: stale_state_def State_ctor_def)
  have c: "states_explored table_with_cheaper_entry = 7"
    by (simp add: table_with_cheaper_entry_def)
  have "\<exists>c'. worker_thread_func BlockShift 1 board_1x4 0 0 0 table_with_cheaper_entry
      (StaleCheck stale_state) = Some c'"
    by simp
  then obtain s' pc' where "worker_thread_func BlockShift 1 board_1x4 0 0 0
      table_with_cheaper_entry (StaleCheck stale_state) = Some (s', pc')"
    by auto
  then have w: "worker_step BlockShift 1 board_1x4 0
      (table_with_cheaper_entry, StaleCheck stale_state) (s', pc')"
    by (rule worker_stepI)
  note d = stale_state_discarded [OF a b, of BlockShift 1 board_1x4 0 9]
  from d w have e: "s' = table_with_cheaper_entry" "pc' = AtLoopTest" by blast+
  have "worker_step BlockShift 1 board_1x4 0
      (table_with_cheaper_entry, StaleCheck stale_state) (table_with_cheaper_entry, AtLoopTest)"
    using w unfolding e .
  moreover have "worker_iteration BlockShift 1 board_1x4 0 9 stale_state table_with_cheaper_entry =
       Some (True, table_with_cheaper_entry\<lparr>states_explored := 8\<rparr>)"
    using d by (simp add: c)
  ultimately show ?thesis using a b by simp
qed

text \<open>
  Claim C5 as it was stated fails when the time limit is reached in the iteration that
  pops a stale state: the stop flag is set and the loop is left.
\<close>

theorem stale_state_timeout_counterexample:
  "g_costs table_with_cheaper_entry (tiles (board stale_state)) = Some 1
   \<and> 1 < g_cost stale_state
   \<and> worker_iteration BlockShift 1 board_1x4 5 9 stale_state table_with_cheaper_entry =
       Some (False, table_with_cheaper_entry\<lparr>states_explored := 8, terminate_search := True\<rparr>)
   \<and> \<not> terminate_search table_with_cheaper_entry"
  by (simp add: worker_iteration_def loop_head_def Let_def table_with_cheaper_entry_def
      stale_state_def State_ctor_def)



section \<open>Pruning against the K-th best solution\<close>






section \<open>The cost table under concurrent relaxation\<close>

text \<open>
  Claim C4 fails. In the loop over the neighbours the comparison
  \<^verbatim>\<open>new_g_cost < it_g->second\<close> and the assignment \<^verbatim>\<open>it_g->second = new_g_cost\<close>
  are two statements, and the parent is assigned two statements later; other workers
  run in between. In this run of three workers on the board \<open>0 1 2 3\<close> (block
  shifts), the board \<open>1 2 3 0\<close> is in the table with cost 3; worker 1 compares its
  cost 2 with the stored 3; before it assigns, worker 0 stores the cost 1; then worker
  1 assigns: the stored cost grows from 1 to 2. When the three workers have finished
  the neighbour they are at, the table holds for \<open>1 2 3 0\<close> the cost 2 that worker
  1 reached from \<open>1 0 2 3\<close>, with the parent \<open>0 1 2 3\<close> that worker 0 recorded:
  the board \<open>1 2 3 0\<close> is a successor of that parent, whose own cost is 0.
\<close>

theorem stored_cost_grows:
  "\<exists>s0 pcs0 s pcs s' pc' s''.
       (solver_step BlockShift 1 board_1x4 0)\<^sup>*\<^sup>*
         (solve_init board_1x4, replicate (nat 3) AtLoopTest) (s0, pcs0)
     \<and> g_costs s0 (tiles board_goal_1x4) = Some 3
     \<and> (solver_step BlockShift 1 board_1x4 0)\<^sup>*\<^sup>* (s0, pcs0) (s, pcs)
     \<and> pcs ! 1 = Writing (State_ctor board_1x4_one 1 2) board_goal_1x4 []
     \<and> g_costs s (tiles board_goal_1x4) = Some 1
     \<and> worker_step BlockShift 1 board_1x4 0 (s, pcs ! 1) (s', pc')
     \<and> g_costs s' (tiles board_goal_1x4) = Some 2
     \<and> (solver_step BlockShift 1 board_1x4 0)\<^sup>*\<^sup>*
         (s', pcs[1 := pc']) (s'', [AtLoopTest, AtLoopTest, AtLoopTest])
     \<and> g_costs s'' (tiles board_goal_1x4) = Some 2
     \<and> came_from s'' (tiles board_goal_1x4) = Some board_1x4
     \<and> g_costs s'' (tiles board_1x4) = Some 0
     \<and> board_goal_1x4 \<in> set (get_neighbors BlockShift board_1x4)"
proof -
  let ?cur = "State_ctor board_1x4_one 1 2"
  let ?run = "run_schedule BlockShift 1 board_1x4 0"
  let ?init = "(solve_init board_1x4, replicate (nat 3) AtLoopTest)"
  have "case ?run table_schedule ?init of
        None \<Rightarrow> False
      | Some (s0, pcs0) \<Rightarrow> g_costs s0 (tiles board_goal_1x4) = Some 3"
    by code_simp
  then obtain s0 pcs0 where
    r0: "?run table_schedule ?init = Some (s0, pcs0)"
    and a0: "g_costs s0 (tiles board_goal_1x4) = Some 3"
    by (auto split: option.splits)
  have "case ?run (table_schedule @ overtake_schedule) ?init of
        None \<Rightarrow> False
      | Some (s, pcs) \<Rightarrow>
          pcs ! 1 = Writing ?cur board_goal_1x4 []
        \<and> g_costs s (tiles board_goal_1x4) = Some 1"
    by code_simp
  then obtain s pcs where
    r: "?run overtake_schedule (s0, pcs0) = Some (s, pcs)"
    and a: "pcs ! 1 = Writing ?cur board_goal_1x4 []"
      "g_costs s (tiles board_goal_1x4) = Some 1"
    unfolding run_schedule_append r0 by (auto split: option.splits)
  have "case ?run ((table_schedule @ overtake_schedule) @ [(1, 0, 0)]) ?init of
        None \<Rightarrow> False
      | Some (s', pcs') \<Rightarrow> g_costs s' (tiles board_goal_1x4) = Some 2"
    by code_simp
  then obtain s' pcs' where
    r1: "?run [(1, 0, 0)] (s, pcs) = Some (s', pcs')"
    and b: "g_costs s' (tiles board_goal_1x4) = Some 2"
    unfolding run_schedule_append [of _ _ _ _ "table_schedule @ overtake_schedule"]
      run_schedule_append [of _ _ _ _ table_schedule] r0
    using r by (auto split: option.splits)
  from run_schedule_single [OF r1] obtain pc' where
    p: "pcs' = pcs[1 := pc']"
    and w: "worker_thread_func BlockShift 1 board_1x4 0 0 0 s (pcs ! 1) = Some (s', pc')"
    by auto
  have "case ?run (((table_schedule @ overtake_schedule) @ [(1, 0, 0)]) @ settle_schedule) ?init of
        None \<Rightarrow> False
      | Some (s'', pcs'') \<Rightarrow>
           pcs'' = [AtLoopTest, AtLoopTest, AtLoopTest]
         \<and> g_costs s'' (tiles board_goal_1x4) = Some 2
         \<and> came_from s'' (tiles board_goal_1x4) = Some board_1x4
         \<and> g_costs s'' (tiles board_1x4) = Some 0"
    by code_simp
  then obtain s'' where
    r2: "?run settle_schedule (s', pcs[1 := pc']) = Some (s'', [AtLoopTest, AtLoopTest, AtLoopTest])"
    and c: "g_costs s'' (tiles board_goal_1x4) = Some 2"
      "came_from s'' (tiles board_goal_1x4) = Some board_1x4"
      "g_costs s'' (tiles board_1x4) = Some 0"
    unfolding run_schedule_append [of _ _ _ _ "(table_schedule @ overtake_schedule) @ [(1, 0, 0)]"]
      run_schedule_append [of _ _ _ _ "table_schedule @ overtake_schedule"]
      run_schedule_append [of _ _ _ _ table_schedule] r0
    using r r1 p by (auto split: option.splits)
  have n: "board_goal_1x4 \<in> set (get_neighbors BlockShift board_1x4)"
    by code_simp
  show ?thesis
    using run_schedule_sound [OF r0] a0 run_schedule_sound [OF r] a worker_stepI [OF w] b
      run_schedule_sound [OF r2] c n
    by blast
qed

section \<open>Path reconstruction\<close>

lemma reconstruct_loop_chain:
  assumes "chain_ends cf ib cur"
  shows "\<exists>visited logged.
      reconstruct_loop cf ib cur pth = Some (pth @ visited, logged)
    \<and> (\<forall>i. Suc i < length visited \<longrightarrow> cf (tiles (visited ! i)) = Some (visited ! Suc i))
    \<and> (\<forall>b \<in> set visited. tiles b \<noteq> tiles ib)
    \<and> (visited = [] \<longrightarrow> tiles cur = tiles ib \<and> \<not> logged)
    \<and> (visited \<noteq> [] \<longrightarrow> hd visited = cur
          \<and> (if logged then cf (tiles (last visited)) = None
              else \<exists>p. cf (tiles (last visited)) = Some p \<and> tiles p = tiles ib))"
  using assms
proof (induction arbitrary: pth rule: chain_ends.induct)
  case (at_initial current)
  have "reconstruct_loop cf ib current pth = Some (pth @ [], False)"
    using at_initial by (subst reconstruct_loop.simps) simp
  then show ?case using at_initial by (intro exI [of _ "[]"] exI [of _ False]) simp
next
  case (broken current)
  have "reconstruct_loop cf ib current pth = Some (pth @ [current], True)"
    using broken by (subst reconstruct_loop.simps) simp
  then show ?case using broken by (intro exI [of _ "[current]"] exI [of _ True]) simp
next
  case (link current parent)
  from link.IH [of "pth @ [current]"] obtain visited logged where
    r: "reconstruct_loop cf ib parent (pth @ [current]) = Some ((pth @ [current]) @ visited, logged)"
    and ch: "\<forall>i. Suc i < length visited \<longrightarrow> cf (tiles (visited ! i)) = Some (visited ! Suc i)"
    and ne: "\<forall>b \<in> set visited. tiles b \<noteq> tiles ib"
    and em: "visited = [] \<longrightarrow> tiles parent = tiles ib \<and> \<not> logged"
    and nm: "visited \<noteq> [] \<longrightarrow> hd visited = parent
          \<and> (if logged then cf (tiles (last visited)) = None
              else \<exists>p. cf (tiles (last visited)) = Some p \<and> tiles p = tiles ib)"
    by blast
  have run: "reconstruct_loop cf ib current pth = Some (pth @ (current # visited), logged)"
    using link.hyps(1,2) r by (subst reconstruct_loop.simps) simp
  have ch': "\<forall>i. Suc i < length (current # visited) \<longrightarrow>
      cf (tiles ((current # visited) ! i)) = Some ((current # visited) ! Suc i)"
  proof (intro allI impI)
    fix i assume i: "Suc i < length (current # visited)"
    show "cf (tiles ((current # visited) ! i)) = Some ((current # visited) ! Suc i)"
    proof (cases i)
      case 0
      then have "visited \<noteq> []" using i by auto
      then have "visited ! 0 = parent" using nm by (simp add: hd_conv_nth)
      then show ?thesis using 0 link.hyps(2) by simp
    next
      case (Suc j)
      then show ?thesis using i ch by simp
    qed
  qed
  have last': "if logged then cf (tiles (last (current # visited))) = None
      else \<exists>p. cf (tiles (last (current # visited))) = Some p \<and> tiles p = tiles ib"
  proof (cases "visited = []")
    case True
    then show ?thesis using em link.hyps(2) by simp
  next
    case False
    then show ?thesis using nm by simp
  qed
  show ?case
    using run ch' ne link.hyps(1) last'
    by (intro exI [of _ "current # visited"] exI [of _ logged]) simp
qed

lemma reconstruct_loop_returns_chain:
  assumes "reconstruct_loop cf0 ib0 cur0 pth0 = Some y0"
  shows "chain_ends cf0 ib0 cur0"
proof (rule reconstruct_loop.raw_induct
    [where P = "\<lambda>cf ib cur pth y. chain_ends cf ib cur", OF _ assms])
  fix rl :: "(int list \<rightharpoonup> Board) \<Rightarrow> Board \<Rightarrow> Board \<Rightarrow> Board list \<Rightarrow> (Board list \<times> bool) option"
    and cf :: "int list \<rightharpoonup> Board" and ib cur :: Board and pth :: "Board list"
    and y :: "Board list \<times> bool"
  assume ih: "\<And>cf ib cur pth y. rl cf ib cur pth = Some y \<Longrightarrow> chain_ends cf ib cur"
    and body: "(if tiles cur = tiles ib then Some (pth, False)
                else case cf (tiles cur) of
                       None \<Rightarrow> Some (pth @ [cur], True)
                     | Some parent \<Rightarrow> rl cf ib parent (pth @ [cur])) = Some y"
  show "chain_ends cf ib cur"
  proof (cases "tiles cur = tiles ib")
    case True
    then show ?thesis by (rule chain_ends.at_initial)
  next
    case False
    show ?thesis
    proof (cases "cf (tiles cur)")
      case None
      show ?thesis by (rule chain_ends.broken [of cur ib cf, OF False None])
    next
      case (Some parent)
      have "rl cf ib parent (pth @ [cur]) = Some y" using body False Some by simp
      then have "chain_ends cf ib parent" by (rule ih)
      then show ?thesis by (rule chain_ends.link [of cur ib cf parent, OF False Some])
    qed
  qed
qed

text \<open>
  Claim C6, as amended. \<open>reconstruct_path\<close> returns exactly when the chain of parent
  links from the goal board ends (at the initial board, or at a board without a
  parent). Then the boards visited, from the goal on, are each the parent of the one
  before; the walk stops at the first board equal to the initial board, or at the
  first board without a parent, where it logs the error; and the result is the initial
  board followed by the visited boards in reverse, so that it ends with the goal
  board.
\<close>

theorem reconstruct_path_terminates_on_ending_chain:
  "(reconstruct_path cf goal_board ib \<noteq> None \<longleftrightarrow> chain_ends cf ib goal_board)
   \<and> (chain_ends cf ib goal_board \<longrightarrow>
       (\<exists>visited logged.
          reconstruct_path cf goal_board ib = Some (rev (visited @ [ib]), logged)
        \<and> (\<forall>i. Suc i < length visited \<longrightarrow> cf (tiles (visited ! i)) = Some (visited ! Suc i))
        \<and> (\<forall>b \<in> set visited. tiles b \<noteq> tiles ib)
        \<and> (visited = [] \<longrightarrow> tiles goal_board = tiles ib \<and> \<not> logged)
        \<and> (visited \<noteq> [] \<longrightarrow> hd visited = goal_board
              \<and> (if logged then cf (tiles (last visited)) = None
                  else \<exists>p. cf (tiles (last visited)) = Some p \<and> tiles p = tiles ib))))"
proof (intro conjI impI)
  show "reconstruct_path cf goal_board ib \<noteq> None \<longleftrightarrow> chain_ends cf ib goal_board"
  proof
    assume "reconstruct_path cf goal_board ib \<noteq> None"
    then obtain y where "reconstruct_loop cf ib goal_board [] = Some y"
      by (auto simp: reconstruct_path_def split: option.splits)
    then show "chain_ends cf ib goal_board" by (rule reconstruct_loop_returns_chain)
  next
    assume "chain_ends cf ib goal_board"
    from reconstruct_loop_chain [OF this, of "[]"]
    show "reconstruct_path cf goal_board ib \<noteq> None"
      by (auto simp: reconstruct_path_def)
  qed
next
  assume "chain_ends cf ib goal_board"
  from reconstruct_loop_chain [OF this, of "[]"] obtain visited logged where
    r: "reconstruct_loop cf ib goal_board [] = Some ([] @ visited, logged)"
    and rest: "(\<forall>i. Suc i < length visited \<longrightarrow> cf (tiles (visited ! i)) = Some (visited ! Suc i))
        \<and> (\<forall>b \<in> set visited. tiles b \<noteq> tiles ib)
        \<and> (visited = [] \<longrightarrow> tiles goal_board = tiles ib \<and> \<not> logged)
        \<and> (visited \<noteq> [] \<longrightarrow> hd visited = goal_board
              \<and> (if logged then cf (tiles (last visited)) = None
                  else \<exists>p. cf (tiles (last visited)) = Some p \<and> tiles p = tiles ib))"
    by blast
  have "reconstruct_path cf goal_board ib = Some (rev (visited @ [ib]), logged)"
    using r by (simp add: reconstruct_path_def)
  then show "\<exists>visited logged.
          reconstruct_path cf goal_board ib = Some (rev (visited @ [ib]), logged)
        \<and> (\<forall>i. Suc i < length visited \<longrightarrow> cf (tiles (visited ! i)) = Some (visited ! Suc i))
        \<and> (\<forall>b \<in> set visited. tiles b \<noteq> tiles ib)
        \<and> (visited = [] \<longrightarrow> tiles goal_board = tiles ib \<and> \<not> logged)
        \<and> (visited \<noteq> [] \<longrightarrow> hd visited = goal_board
              \<and> (if logged then cf (tiles (last visited)) = None
                  else \<exists>p. cf (tiles (last visited)) = Some p \<and> tiles p = tiles ib))"
    using rest by blast
qed

lemma chain_ends_parents_1x3: "chain_ends parents_1x3 board_init_1x3 board_goal_1x3"
proof -
  have a: "chain_ends parents_1x3 board_init_1x3 board_init_1x3"
    by (rule chain_ends.at_initial) simp
  have b: "chain_ends parents_1x3 board_init_1x3 board_mid_1x3"
    by (rule chain_ends.link [OF _ _ a])
       (simp_all add: parents_1x3_def board_init_1x3_def board_mid_1x3_def board_goal_1x3_def)
  show ?thesis
    by (rule chain_ends.link [OF _ _ b])
       (simp_all add: parents_1x3_def board_init_1x3_def board_mid_1x3_def board_goal_1x3_def)
qed

theorem reconstruct_path_terminates_witness:
  "chain_ends parents_1x3 board_init_1x3 board_goal_1x3
   \<and> reconstruct_path parents_1x3 board_goal_1x3 board_init_1x3 =
       Some ([board_init_1x3, board_mid_1x3, board_goal_1x3], False)
   \<and> reconstruct_path Map.empty board_goal_1x3 board_init_1x3 =
       Some ([board_init_1x3, board_goal_1x3], True)"
proof -
  note c = chain_ends_parents_1x3
  from reconstruct_path_terminates_on_ending_chain
    [of parents_1x3 board_goal_1x3 board_init_1x3] c
  have "reconstruct_path parents_1x3 board_goal_1x3 board_init_1x3 \<noteq> None" by blast
  then obtain y where y: "reconstruct_path parents_1x3 board_goal_1x3 board_init_1x3 = Some y"
    by blast
  have e: "reconstruct_path parents_1x3 board_goal_1x3 board_init_1x3 =
       Some ([board_init_1x3, board_mid_1x3, board_goal_1x3], False)"
    by (simp add: reconstruct_path_def reconstruct_loop.simps parents_1x3_def
        board_init_1x3_def board_mid_1x3_def board_goal_1x3_def)
  have e2: "reconstruct_path Map.empty board_goal_1x3 board_init_1x3 =
       Some ([board_init_1x3, board_goal_1x3], True)"
    by (simp add: reconstruct_path_def reconstruct_loop.simps
        board_init_1x3_def board_goal_1x3_def)
  show ?thesis using c e e2 y by simp
qed

text \<open>
  Claim C6 as it was stated (for every contents of the parent map) fails on a parent map
  with a cycle: the loop of \<open>reconstruct_path\<close> never ends.
\<close>

lemma cyclic_loop_never_returns:
  assumes "reconstruct_loop cf0 ib0 cur0 pth0 = Some y0"
  shows "\<not> (cf0 = parents_cyclic \<and> ib0 = board_init_1x3 \<and>
            (cur0 = board_goal_1x3 \<or> cur0 = board_mid_1x3))"
proof (rule reconstruct_loop.raw_induct
    [where P = "\<lambda>cf ib cur pth y. \<not> (cf = parents_cyclic \<and> ib = board_init_1x3 \<and>
            (cur = board_goal_1x3 \<or> cur = board_mid_1x3))", OF _ assms])
  fix rl :: "(int list \<rightharpoonup> Board) \<Rightarrow> Board \<Rightarrow> Board \<Rightarrow> Board list \<Rightarrow> (Board list \<times> bool) option"
    and cf :: "int list \<rightharpoonup> Board" and ib cur :: Board and pth :: "Board list"
    and y :: "Board list \<times> bool"
  assume ih: "\<And>cf ib cur pth y. rl cf ib cur pth = Some y \<Longrightarrow>
        \<not> (cf = parents_cyclic \<and> ib = board_init_1x3 \<and>
            (cur = board_goal_1x3 \<or> cur = board_mid_1x3))"
    and body: "(if tiles cur = tiles ib then Some (pth, False)
                else case cf (tiles cur) of
                       None \<Rightarrow> Some (pth @ [cur], True)
                     | Some parent \<Rightarrow> rl cf ib parent (pth @ [cur])) = Some y"
  show "\<not> (cf = parents_cyclic \<and> ib = board_init_1x3 \<and>
            (cur = board_goal_1x3 \<or> cur = board_mid_1x3))"
  proof
    assume a: "cf = parents_cyclic \<and> ib = board_init_1x3 \<and>
            (cur = board_goal_1x3 \<or> cur = board_mid_1x3)"
    then consider "cur = board_goal_1x3" | "cur = board_mid_1x3" by blast
    then show False
    proof cases
      case 1
      have "rl cf ib board_mid_1x3 (pth @ [cur]) = Some y"
        using body a 1
        by (simp add: parents_cyclic_def board_init_1x3_def board_mid_1x3_def board_goal_1x3_def)
      from ih [OF this] a show False by simp
    next
      case 2
      have "rl cf ib board_goal_1x3 (pth @ [cur]) = Some y"
        using body a 2
        by (simp add: parents_cyclic_def board_init_1x3_def board_mid_1x3_def board_goal_1x3_def)
      from ih [OF this] a show False by simp
    qed
  qed
qed

theorem reconstruct_path_cycle_counterexample:
  "reconstruct_path parents_cyclic board_goal_1x3 board_init_1x3 = None"
proof (cases "reconstruct_loop parents_cyclic board_init_1x3 board_goal_1x3 []")
  case None
  then show ?thesis by (simp add: reconstruct_path_def)
next
  case (Some y)
  from cyclic_loop_never_returns [OF Some] show ?thesis by simp
qed

section \<open>A worker running alone\<close>

lemma reconstruct_steps:
  assumes "chain_ends (came_from s) ib current"
  shows "\<exists>p logged. reconstruct_loop (came_from s) ib current pth = Some (p, logged)
     \<and> (worker_step type K ib lim)\<^sup>*\<^sup>*
          (s, Reconstructing cur current pth) (s, Inserting cur (rev (p @ [ib])))"
  using assms
proof (induction arbitrary: pth rule: chain_ends.induct)
  case (at_initial current)
  have "reconstruct_loop (came_from s) ib current pth = Some (pth, False)"
    using at_initial by (subst reconstruct_loop.simps) simp
  moreover have "worker_step type K ib lim
      (s, Reconstructing cur current pth) (s, Inserting cur (rev (pth @ [ib])))"
    by (rule worker_stepI [where pick = 0 and elapsed = 0]) (simp add: at_initial)
  ultimately show ?case by blast
next
  case (broken current)
  have "reconstruct_loop (came_from s) ib current pth = Some (pth @ [current], True)"
    using broken by (subst reconstruct_loop.simps) simp
  moreover have "worker_step type K ib lim
      (s, Reconstructing cur current pth) (s, Inserting cur (rev ((pth @ [current]) @ [ib])))"
    by (rule worker_stepI [where pick = 0 and elapsed = 0]) (simp add: broken)
  ultimately show ?case by blast
next
  case (link current parent)
  from link.IH [of "pth @ [current]"] obtain p logged where
    r: "reconstruct_loop (came_from s) ib parent (pth @ [current]) = Some (p, logged)"
    and w: "(worker_step type K ib lim)\<^sup>*\<^sup>*
          (s, Reconstructing cur parent (pth @ [current])) (s, Inserting cur (rev (p @ [ib])))"
    by blast
  have "reconstruct_loop (came_from s) ib current pth = Some (p, logged)"
    using link.hyps(1,2) r by (subst reconstruct_loop.simps) simp
  moreover have "worker_step type K ib lim
      (s, Reconstructing cur current pth) (s, Reconstructing cur parent (pth @ [current]))"
    by (rule worker_stepI [where pick = 0 and elapsed = 0]) (simp add: link.hyps)
  ultimately show ?case using w by (meson converse_rtranclp_into_rtranclp)
qed

text \<open>
  An iteration of one worker running alone is a sequence of steps of that worker:
  \<open>worker_iteration\<close> is what the steps compose to when no other worker moves
  in between (and the mutex is free). In particular \<open>reconstruct_path\<close> is what
  the passes of its loop compose to when the parent map does not change meanwhile.
\<close>

lemma worker_iteration_steps:
  assumes it: "worker_iteration type K ib lim el cur s = Some (go, s')"
    and free: "\<not> solutions_mutex s"
  shows "(worker_step type K ib lim)\<^sup>*\<^sup>*
           (s, Counting cur) (s', if go then AtLoopTest else Finished)"
proof -
  let ?s1 = "s\<lparr>states_explored := states_explored s + 1\<rparr>"
  let ?W = "worker_step type K ib lim"
  let ?nth = "current_nth_best_cost (found_solutions s) K"
  show ?thesis
  proof (cases "lim > 0 \<and> el \<ge> lim")
    case True
    have "loop_head type K ib lim el cur s = Some (Exit, ?s1\<lparr>terminate_search := True\<rparr>)"
      using True by (simp add: loop_head_def Let_def)
    then have r: "go = False" "s' = ?s1\<lparr>terminate_search := True\<rparr>"
      using it by (simp_all add: worker_iteration_def)
    have c1: "?W (s, Counting cur) (?s1, Stopping)"
      by (rule worker_stepI [where pick = 0 and elapsed = el]) (use True in simp)
    have c2: "?W (?s1, Stopping) (?s1\<lparr>terminate_search := True\<rparr>, Finished)"
      by (rule worker_stepI [where pick = 0 and elapsed = 0]) simp
    show ?thesis unfolding r using c1 c2 by simp
  next
    case nt: False
    have c1: "?W (s, Counting cur) (?s1, Pruning cur)"
      by (rule worker_stepI [where pick = 0 and elapsed = el]) (use nt in simp)
    show ?thesis
    proof (cases "?nth \<noteq> -1 \<and> f_cost cur \<ge> ?nth")
      case True
      have "loop_head type K ib lim el cur s = Some (Next, ?s1)"
        using nt True by (simp add: loop_head_def Let_def)
      then have r: "go = True" "s' = ?s1"
        using it by (simp_all add: worker_iteration_def)
      have "?W (?s1, Pruning cur) (?s1, AtLoopTest)"
        by (rule worker_stepI [where pick = 0 and elapsed = 0])
           (use True free in \<open>simp add: Let_def\<close>)
      then show ?thesis unfolding r using c1 by simp
    next
      case np: False
      have c2: "?W (?s1, Pruning cur) (?s1, StaleCheck cur)"
        by (rule worker_stepI [where pick = 0 and elapsed = 0])
           (use np free in \<open>simp add: Let_def\<close>)
      show ?thesis
      proof (cases "case g_costs s (tiles (board cur)) of Some g \<Rightarrow> g_cost cur > g | None \<Rightarrow> False")
        case True
        have "loop_head type K ib lim el cur s = Some (Next, ?s1)"
          using nt np True by (simp add: loop_head_def Let_def)
        then have r: "go = True" "s' = ?s1"
          using it by (simp_all add: worker_iteration_def)
        have "?W (?s1, StaleCheck cur) (?s1, AtLoopTest)"
          by (rule worker_stepI [where pick = 0 and elapsed = 0]) (use True in simp)
        then show ?thesis unfolding r using c1 c2 by simp
      next
        case ns: False
        show ?thesis
        proof (cases "is_goal (board cur)")
          case False
          have "loop_head type K ib lim el cur s =
              Some (Expand (get_neighbors type (board cur)), ?s1)"
            using nt np ns False by (simp add: loop_head_def Let_def)
          then have r: "go = True" "s' = foldl (relax cur) ?s1 (get_neighbors type (board cur))"
            using it by (simp_all add: worker_iteration_def)
          have c3: "?W (?s1, StaleCheck cur) (?s1, Relaxing cur (get_neighbors type (board cur)))"
            by (rule worker_stepI [where pick = 0 and elapsed = 0]) (use ns False in simp)
          show ?thesis unfolding r
            using c1 c2 c3 relax_all_steps [of type K ib lim ?s1 cur "get_neighbors type (board cur)"]
            by simp
        next
          case True
          let ?s2 = "?s1\<lparr>solutions_mutex := True\<rparr>"
          have lh: "loop_head type K ib lim el cur s =
              (case reconstruct_path (came_from s) (board cur) ib of
                 None \<Rightarrow> None
               | Some (pth, logged) \<Rightarrow> Some (Next, insert_solution K cur pth ?s1))"
            using nt np ns True
            by (auto simp: loop_head_def Let_def insert_solution_def split: option.splits)
          from it obtain pth logged where
            rp: "reconstruct_path (came_from s) (board cur) ib = Some (pth, logged)"
            and r: "go = True" "s' = insert_solution K cur pth ?s1"
            unfolding worker_iteration_def lh by (auto split: option.splits)
          from rp obtain p0 where
            rl: "reconstruct_loop (came_from s) ib (board cur) [] = Some (p0, logged)"
            and pth: "pth = rev (p0 @ [ib])"
            by (auto simp: reconstruct_path_def split: option.splits)
          have "chain_ends (came_from ?s2) ib (board cur)"
            using reconstruct_loop_returns_chain [OF rl] by simp
          from reconstruct_steps [OF this, of "[]" type K lim cur] rl
          have c5: "?W\<^sup>*\<^sup>* (?s2, Reconstructing cur (board cur) []) (?s2, Inserting cur pth)"
            by (simp add: pth)
          have c3: "?W (?s1, StaleCheck cur) (?s1, Locking cur)"
            by (rule worker_stepI [where pick = 0 and elapsed = 0]) (use ns True in simp)
          have c4: "?W (?s1, Locking cur) (?s2, Reconstructing cur (board cur) [])"
            by (rule worker_stepI [where pick = 0 and elapsed = 0]) (use free in simp)
          have e: "(insert_solution K cur pth ?s2)\<lparr>solutions_mutex := False\<rparr> = s'"
            using free unfolding r by (simp add: insert_solution_def Let_def)
          have c6: "?W (?s2, Inserting cur pth) (s', AtLoopTest)"
            by (rule worker_stepI [where pick = 0 and elapsed = 0]) (simp add: e)
          show ?thesis using r(1) c1 c2 c3 c4 c5 c6 by simp
        qed
      qed
    qed
  qed
qed

section \<open>The paths of the returned solutions\<close>

text \<open>
  A run of two workers on the board \<open>0 1 2\<close> (one row), adjacent swaps, \<open>K = 1\<close>, no
  time limit. Worker 0 expands the initial board and then the board \<open>1 0 2\<close>; when it
  has pushed the goal board \<open>1 2 0\<close> (\<^verbatim>\<open>open_set.push\<close>) and not yet recorded its
  parent (\<^verbatim>\<open>came_from.emplace\<close>, the next statement), worker 1 pops the goal board
  and reconstructs its path: the parent chain breaks at once.
\<close>

lemma race_run:
  "solve_returns board_init_1x3 AdjacentSwap 1 2 0
     [\<lparr>cost = 2, path = [board_init_1x3, board_goal_1x3]\<rparr>]"
proof -
  have "case run_schedule AdjacentSwap 1 board_init_1x3 0 race_schedule
             (solve_init board_init_1x3, replicate (nat 2) AtLoopTest) of
        None \<Rightarrow> False
      | Some (s, pcs) \<Rightarrow> pcs = [Finished, Finished] \<and>
          found_solutions s = [\<lparr>cost = 2, path = [board_init_1x3, board_goal_1x3]\<rparr>]"
    by code_simp
  then obtain s where
    r: "run_schedule AdjacentSwap 1 board_init_1x3 0 race_schedule
             (solve_init board_init_1x3, replicate (nat 2) AtLoopTest) = Some (s, [Finished, Finished])"
    and f: "found_solutions s = [\<lparr>cost = 2, path = [board_init_1x3, board_goal_1x3]\<rparr>]"
    by (auto split: option.splits)
  have "solve_returns board_init_1x3 AdjacentSwap 1 2 0
      (extract_solutions (found_solutions s) 1 0 [])"
    by (rule solve_returns.intros [OF run_schedule_sound [OF r]]) simp
  then show ?thesis by (simp add: f)
qed

text \<open>
  Claim C1 fails on that run: \<open>solve\<close> returns a solution of cost 2 whose path is
  the initial board followed by the goal board. The goal board is no successor of the
  initial board under adjacent swaps, and the path has one move, not two.
\<close>

theorem solve_returns_broken_path:
  "valid_board board_init_1x3
   \<and> solve_returns board_init_1x3 AdjacentSwap 1 2 0
       [\<lparr>cost = 2, path = [board_init_1x3, board_goal_1x3]\<rparr>]
   \<and> \<not> move_sequence AdjacentSwap [board_init_1x3, board_goal_1x3]
   \<and> tiles board_goal_1x3 \<notin> tiles ` set (get_neighbors AdjacentSwap board_init_1x3)
   \<and> int (length [board_init_1x3, board_goal_1x3]) - 1 \<noteq> 2"
proof -
  have v: "valid_board board_init_1x3"
    unfolding valid_board_def board_init_1x3_def in_bounds_def by code_simp
  have n0: "get_neighbors AdjacentSwap board_init_1x3 = [board_mid_1x3]"
    unfolding get_neighbors_def board_init_1x3_def board_mid_1x3_def by code_simp
  have a: "\<not> move_sequence AdjacentSwap [board_init_1x3, board_goal_1x3]"
    by (simp add: n0 board_mid_1x3_def board_goal_1x3_def)
  have b: "tiles board_goal_1x3 \<notin> tiles ` set (get_neighbors AdjacentSwap board_init_1x3)"
    by (simp add: n0 board_mid_1x3_def board_goal_1x3_def)
  show ?thesis using v race_run a b by simp
qed

section \<open>Further properties: valid input boards, and the ends of the returned paths\<close>

text \<open>
  The constructor builds a valid board from valid input: positive dimensions and a
  permutation of \<open>0 .. n*m-1\<close>, whatever the uninitialised members held.
\<close>

theorem Board_ctor_gives_valid_board:
  assumes n: "0 < n" and m: "0 < m" and p: "sort ts = [0 .. n * m - 1]"
  shows "valid_board (Board_ctor n m ts r0 c0)"
proof -
  have nm: "0 < n * m" using n m by simp
  have "set ts = set (sort ts)" by simp
  then have st: "set ts = {0 .. n * m - 1}" using p by simp
  then have "0 \<in> set ts" using nm by simp
  then obtain k where k: "k < length ts" "ts ! k = 0" by (auto simp: in_set_conv_nth)
  have "length ts = length (sort ts)" by simp
  then have len: "length ts = nat (n * m)" using p by simp
  have "int k \<in> set [0 .. n * m - 1] \<and> ts ! nat (int k) = 0" using k len by simp
  then have "find (\<lambda>i. ts ! nat i = 0) [0 .. n * m - 1] \<noteq> None"
    unfolding find_None_iff by blast
  then obtain i where f: "find (\<lambda>i. ts ! nat i = 0) [0 .. n * m - 1] = Some i" by blast
  then have i: "i \<in> set [0 .. n * m - 1]" "ts ! nat i = 0"
    unfolding find_Some_iff by auto
  then have i0: "0 \<le> i" and i1: "i < n * m" by simp_all
  have b: "Board_ctor n m ts r0 c0 =
      \<lparr>N = n, M = m, tiles = ts, empty_row = i div m, empty_col = i mod m\<rparr>"
    using f i0 m by (simp add: Board_ctor_def sdiv_nonneg smod_nonneg)
  have r0: "0 \<le> i div m" using i0 m by (simp add: pos_imp_zdiv_nonneg_iff)
  have c: "0 \<le> i mod m" "i mod m < m" using m by simp_all
  have dm: "i div m * m + i mod m = i" by simp
  have r1: "i div m < n"
  proof (rule ccontr)
    assume "\<not> i div m < n"
    then have "n * m \<le> (i div m) * m" using m by (intro mult_right_mono) auto
    also have "\<dots> \<le> i" using dm c(1) by linarith
    finally show False using i1 by simp
  qed
  from dm have z: "ts ! nat (i div m * m + i mod m) = 0" using i(2) by simp
  show ?thesis
    unfolding b valid_board_def in_bounds_def using n m p r0 r1 c z by simp
qed

theorem Board_ctor_gives_valid_board_witness:
  "(0::int) < 3 \<and> sort [2, 3, 6, 1, 5, 8, 4, 0, 7] = [0 .. 3 * 3 - 1]
   \<and> Board_ctor 3 3 [2, 3, 6, 1, 5, 8, 4, 0, 7] 0 0 =
       \<lparr>N = 3, M = 3, tiles = [2, 3, 6, 1, 5, 8, 4, 0, 7], empty_row = 2, empty_col = 1\<rparr>
   \<and> valid_board (Board_ctor 3 3 [2, 3, 6, 1, 5, 8, 4, 0, 7] 0 0)"
proof -
  have s: "sort [2, 3, 6, 1, 5, 8, 4, 0, 7] = [0 .. 3 * 3 - (1::int)]" by code_simp
  have b: "Board_ctor 3 3 [2, 3, 6, 1, 5, 8, 4, 0, 7] 0 0 =
       \<lparr>N = 3, M = 3, tiles = [2, 3, 6, 1, 5, 8, 4, 0, 7], empty_row = 2, empty_col = 1\<rparr>"
    by code_simp
  have "valid_board (Board_ctor 3 3 [2, 3, 6, 1, 5, 8, 4, 0, 7] 0 0)"
    by (rule Board_ctor_gives_valid_board [OF _ _ s]) simp_all
  then show ?thesis using s b by simp
qed

lemma block_shift_loop_dims:
  "\<forall>x \<in> set nb. same_dims x b \<Longrightarrow> same_dims csb b \<Longrightarrow>
   \<forall>x \<in> set (block_shift_loop b d csb r c nb). same_dims x b"
proof (induction b d csb r c nb rule: block_shift_loop.induct)
  case (1 b d csb r c nb)
  show ?case
  proof (cases "in_bounds b r c")
    case True
    let ?csb' = "csb\<lparr>tiles := swap_tiles (tiles csb) (r * M b + c) ((r - dr d) * M b + (c - dc d)),
                     empty_row := r, empty_col := c\<rparr>"
    have a: "\<forall>x \<in> set (nb @ [?csb']). same_dims x b"
      using "1.prems" by (simp add: same_dims_def)
    have b: "same_dims ?csb' b" using "1.prems"(2) by (simp add: same_dims_def)
    show ?thesis
      using "1.IH" [OF True refl refl refl a b] True
      by (subst block_shift_loop.simps) (simp add: Let_def)
  next
    case False
    then show ?thesis
      using "1.prems"(1) by (subst block_shift_loop.simps) simp
  qed
qed

lemma neighbors_same_dims:
  assumes "nb \<in> set (get_neighbors type b)"
  shows "same_dims nb b"
proof (cases "type = AdjacentSwap")
  case True
  then have "nb \<in> set (get_neighbors_adjacent_swap b)" using assms by (simp add: get_neighbors_def)
  then obtain d where "nb = swap_neighbor b d" by (rule adjacent_neighbor_cases)
  then show ?thesis by (simp add: same_dims_def swap_neighbor_def)
next
  case False
  have s: "same_dims b b" by (simp add: same_dims_def)
  have step: "\<And>acc d. \<forall>x \<in> set acc. same_dims x b \<Longrightarrow>
      \<forall>x \<in> set (block_shift_step b acc d). same_dims x b"
    unfolding block_shift_step_def by (rule block_shift_loop_dims [OF _ s])
  have "\<forall>x \<in> set (get_neighbors_block_shift b). same_dims x b"
    unfolding get_neighbors_block_shift_def directions_def
    by (simp del: ball_simps) (intro step, simp)
  then show ?thesis using assms False by (simp add: get_neighbors_def)
qed

lemma is_goal_cong:
  "same_dims a b \<Longrightarrow> tiles a = tiles b \<Longrightarrow> is_goal a = is_goal b"
  by (simp add: is_goal_def same_dims_def)

lemma same_dims_trans: "same_dims a b \<Longrightarrow> same_dims b c \<Longrightarrow> same_dims a c"
  by (simp add: same_dims_def)

text \<open>The place of a worker after a step keeps the invariant.\<close>

lemma worker_step_pc_dims:
  assumes w: "worker_step type K ib lim (s, pc) (s', pc')"
    and q: "\<forall>st \<in> set (open_set s). same_dims (board st) ib"
    and pi: "pc_dims_ok ib pc"
  shows "pc_dims_ok ib pc'"
proof -
  from w obtain pick elapsed where
    w: "worker_thread_func type K ib lim pick elapsed s pc = Some (s', pc')"
    by (rule worker_stepE)
  show ?thesis
  proof (cases pc)
    case AtPop
    then show ?thesis using w q by (auto simp: highest_priority_def split: if_splits)
  next
    case (StaleCheck cur)
    have "\<forall>nb \<in> set (get_neighbors type (board cur)). same_dims nb ib"
      using neighbors_same_dims [of _ type "board cur"] pi StaleCheck
      by (auto intro: same_dims_trans)
    then show ?thesis using w pi StaleCheck by (auto split: if_splits)
  next
    case (Reconstructing cur current pth)
    show ?thesis
    proof (cases "tiles current = tiles ib")
      case True
      have pc': "pc' = Inserting cur (rev (pth @ [ib]))"
        using w Reconstructing True by simp
      have "is_goal (last (rev (pth @ [ib])))"
      proof (cases "pth = []")
        case True
        then have "current = board cur" using pi Reconstructing by simp
        then have "is_goal ib = is_goal (board cur)"
          using is_goal_cong [of "board cur" ib] pi Reconstructing \<open>tiles current = tiles ib\<close>
          by simp
        then show ?thesis using True pi Reconstructing by simp
      next
        case False
        have "last (rev (pth @ [ib])) = hd (pth @ [ib])" by (rule last_rev)
        also have "\<dots> = hd pth" using False by (rule hd_append2)
        also have "\<dots> = board cur" using pi Reconstructing False by simp
        finally have "last (rev (pth @ [ib])) = board cur" .
        then show ?thesis using pi Reconstructing by simp
      qed
      then show ?thesis unfolding pc' by (simp add: path_ends_ok_def)
    next
      case False
      show ?thesis
      proof (cases "came_from s (tiles current)")
        case None
        have pc': "pc' = Inserting cur (rev ((pth @ [current]) @ [ib]))"
          using w Reconstructing False None by simp
        have "hd (pth @ [current]) = board cur"
          using pi Reconstructing by (cases pth) (simp_all split: if_splits)
        moreover have "last (rev ((pth @ [current]) @ [ib])) = hd ((pth @ [current]) @ [ib])"
          by (rule last_rev)
        moreover have "hd ((pth @ [current]) @ [ib]) = hd (pth @ [current])"
          by (rule hd_append2) simp
        ultimately have "last (rev ((pth @ [current]) @ [ib])) = board cur"
          by (simp only:)
        then show ?thesis unfolding pc' using pi Reconstructing by (simp add: path_ends_ok_def)
      next
        case (Some parent)
        have pc': "pc' = Reconstructing cur parent (pth @ [current])"
          using w Reconstructing False Some by simp
        have "hd (pth @ [current]) = board cur"
          using pi Reconstructing by (cases pth) (simp_all split: if_splits)
        moreover have "same_dims (board cur) ib" "is_goal (board cur)"
          using pi Reconstructing by simp_all
        ultimately show ?thesis unfolding pc' by simp
      qed
    qed
  next
    case (Relaxing cur nbs)
    then show ?thesis using w pi by (cases nbs) (auto split: option.splits)
  qed (use w pi in \<open>auto simp: Let_def split: if_splits\<close>)
qed

lemma worker_step_invariant:
  assumes w: "worker_step type K ib lim (s, pc) (s', pc')"
    and q: "\<forall>st \<in> set (open_set s). same_dims (board st) ib"
    and f: "\<forall>sol \<in> set (found_solutions s). path_ends_ok ib sol"
    and pi: "pc_dims_ok ib pc"
  shows "(\<forall>st \<in> set (open_set s'). same_dims (board st) ib) \<and>
         (\<forall>sol \<in> set (found_solutions s'). path_ends_ok ib sol) \<and> pc_dims_ok ib pc'"
proof -
  have a: "\<forall>st \<in> set (open_set s'). same_dims (board st) ib"
    using worker_step_open_set [OF w] q pi
    by (auto simp: State_ctor_def dest: notin_set_remove1)
  have b: "\<forall>sol \<in> set (found_solutions s'). path_ends_ok ib sol"
  proof
    fix sol assume m: "sol \<in> set (found_solutions s')"
    from worker_step_found [OF w] show "path_ends_ok ib sol"
    proof (elim disjE exE conjE)
      assume "found_solutions s' = found_solutions s"
      then show ?thesis using m f by simp
    next
      fix cur pth
      assume pc: "pc = Inserting cur pth"
        and e: "found_solutions s' = set_insert \<lparr>cost = g_cost cur, path = pth\<rparr> (found_solutions s)"
      have "sol = \<lparr>cost = g_cost cur, path = pth\<rparr> \<or> sol \<in> set (found_solutions s)"
        using m e set_set_insert [of "\<lparr>cost = g_cost cur, path = pth\<rparr>" "found_solutions s"]
        by auto
      then show ?thesis using f pi pc by auto
    qed
  qed
  show ?thesis using a b worker_step_pc_dims [OF w q pi] by simp
qed

lemma solver_step_invariant:
  assumes "solver_step type K ib lim c c'" and "run_invariant ib c"
  shows "run_invariant ib c'"
  using assms(1)
proof (cases rule: solver_step.cases)
  case (1 i pcs s s' pc')
  have q: "\<forall>st \<in> set (open_set s). same_dims (board st) ib"
    and f: "\<forall>sol \<in> set (found_solutions s). path_ends_ok ib sol"
    and p: "\<forall>pc \<in> set pcs. pc_dims_ok ib pc"
    using assms(2) 1(1) by (simp_all add: run_invariant_def)
  have pi: "pc_dims_ok ib (pcs ! i)" using p 1(3) by simp
  note step = worker_step_invariant [OF 1(4) q f pi]
  have "\<forall>pc \<in> set (pcs[i := pc']). pc_dims_ok ib pc"
    using set_update_pc [of pcs "pc_dims_ok ib", OF p] step by blast
  then show ?thesis
    unfolding 1(2) run_invariant_def using step by simp
qed

lemma reachable_invariant:
  assumes "(solver_step type K ib lim)\<^sup>*\<^sup>* (solve_init ib, replicate n AtLoopTest) c"
  shows "run_invariant ib c"
  using assms
proof (induction rule: rtranclp_induct)
  case base
  show ?case by (simp add: run_invariant_def solve_init_def State_ctor_def same_dims_def)
next
  case (step y z)
  then show ?case using solver_step_invariant by blast
qed

text \<open>
  What does hold of the returned solutions in every run, of any number of workers: the
  path is not empty, it starts with the initial board and ends with a board that
  satisfies the goal predicate, and the cost is not negative.
\<close>

theorem returned_paths_start_and_end:
  assumes "solve_returns initial_board type K num_threads time_limit result"
  shows "\<forall>sol \<in> set result.
           path sol \<noteq> [] \<and> hd (path sol) = initial_board \<and> is_goal (last (path sol))
         \<and> 0 \<le> cost sol"
  using assms
proof (cases rule: solve_returns.cases)
  case (1 s pcs)
  have "run_invariant initial_board (s, pcs)" using reachable_invariant [OF 1(2)] .
  then have a: "\<forall>sol \<in> set (found_solutions s). path_ends_ok initial_board sol"
    by (simp add: run_invariant_def)
  have "costs_nonneg (s, pcs)" using reachable_costs [OF 1(2)] .
  then have b: "\<forall>sol \<in> set (found_solutions s). 0 \<le> cost sol"
    by (simp add: costs_nonneg_def)
  have "set result \<subseteq> set (found_solutions s)"
    using 1(1) by (simp add: extract_solutions_take set_take_subset)
  then show ?thesis using a b by (auto simp: path_ends_ok_def)
qed

theorem returned_paths_start_and_end_witness:
  "solve_returns board_init_1x3 AdjacentSwap 1 2 0
     [\<lparr>cost = 2, path = [board_init_1x3, board_goal_1x3]\<rparr>]
   \<and> hd [board_init_1x3, board_goal_1x3] = board_init_1x3
   \<and> is_goal (last [board_init_1x3, board_goal_1x3])"
  using race_run returned_paths_start_and_end [OF race_run] by simp

end
